theory Spec2Isabelle
  imports Main
begin

section \<open>JavaScript numbers and Date objects\<close>

text \<open>
  The controller works on JavaScript \<^verbatim>\<open>Date\<close> objects. A Date object holds one time value:
  either an integral number of milliseconds since 1970-01-01T00:00:00Z of magnitude at most
  8.64e15, or NaN (an "Invalid Date"). The numbers the controller reads from a Date and passes
  to it (years, months, days of the month, day counts) are integers or NaN. Both are modelled
  by \<open>jsnum\<close>; the results of \<^verbatim>\<open>Number(...)\<close>, which need not be integers, by \<open>jsfloat\<close>
  below. Every Date the controller mutates is a fresh copy (\<^verbatim>\<open>new Date(d)\<close>), so a Date is
  modelled by its time value and a setter returns the new time value.
\<close>

datatype jsnum = NaN | Num int

fun truthy :: "jsnum \<Rightarrow> bool" where
  "truthy NaN = False"
| "truthy (Num n) = (n \<noteq> 0)"

text \<open>\<^verbatim>\<open>a || b\<close> on numbers.\<close>

definition js_or :: "jsnum \<Rightarrow> jsnum \<Rightarrow> jsnum" where
  "js_or a b = (if truthy a then a else b)"

fun js_add :: "jsnum \<Rightarrow> jsnum \<Rightarrow> jsnum" where
  "js_add (Num a) (Num b) = Num (a + b)"
| "js_add _ _ = NaN"

fun js_sub :: "jsnum \<Rightarrow> jsnum \<Rightarrow> jsnum" where
  "js_sub (Num a) (Num b) = Num (a - b)"
| "js_sub _ _ = NaN"

text \<open>\<^verbatim>\<open>a <= b\<close> and \<^verbatim>\<open>a >= b\<close> on Dates compare the time values; any comparison with NaN is false.\<close>

fun js_le :: "jsnum \<Rightarrow> jsnum \<Rightarrow> bool" where
  "js_le (Num a) (Num b) = (a \<le> b)"
| "js_le _ _ = False"

definition js_ge :: "jsnum \<Rightarrow> jsnum \<Rightarrow> bool" where
  "js_ge a b = js_le b a"

subsection \<open>Time values (ECMAScript, Date objects: day number, year, month, date, week day)\<close>

definition msPerDay :: int where
  "msPerDay = 86400000"

definition Day :: "int \<Rightarrow> int" where
  "Day t = t div msPerDay"

definition TimeWithinDay :: "int \<Rightarrow> int" where
  "TimeWithinDay t = t mod msPerDay"

definition DaysInYear :: "int \<Rightarrow> int" where
  "DaysInYear y = (if y mod 4 \<noteq> 0 then 365 else if y mod 100 \<noteq> 0 then 366
                   else if y mod 400 \<noteq> 0 then 365 else 366)"

definition DayFromYear :: "int \<Rightarrow> int" where
  "DayFromYear y = 365 * (y - 1970) + (y - 1969) div 4 - (y - 1901) div 100 + (y - 1601) div 400"

text \<open>
  ECMAScript defines the year of a day as the largest \<open>y\<close> with \<open>DayFromYear y \<le> d\<close>.
  It is computed here from the estimate \<open>1970 + 400 * d div 146097\<close> (400 years have 146097
  days), which is off by at most one; \<open>YearFromDay_lower\<close>, \<open>YearFromDay_upper\<close> and
  \<open>YearFromDay_unique\<close> below show that the result is the year ECMAScript specifies.
\<close>

definition YearFromDay :: "int \<Rightarrow> int" where
  "YearFromDay d = (let e = 1970 + (400 * d) div 146097 in
     if DayFromYear (e + 1) \<le> d then e + 1 else if DayFromYear e \<le> d then e else e - 1)"

definition YearFromTime :: "int \<Rightarrow> int" where
  "YearFromTime t = YearFromDay (Day t)"

definition InLeapYear :: "int \<Rightarrow> int" where
  "InLeapYear t = (if DaysInYear (YearFromTime t) = 366 then 1 else 0)"

definition DayWithinYear :: "int \<Rightarrow> int" where
  "DayWithinYear t = Day t - DayFromYear (YearFromTime t)"

definition MonthFromTime :: "int \<Rightarrow> int" where
  "MonthFromTime t = (let d = DayWithinYear t; l = InLeapYear t in
     if d < 31 then 0 else if d < 59 + l then 1 else if d < 90 + l then 2
     else if d < 120 + l then 3 else if d < 151 + l then 4 else if d < 181 + l then 5
     else if d < 212 + l then 6 else if d < 243 + l then 7 else if d < 273 + l then 8
     else if d < 304 + l then 9 else if d < 334 + l then 10 else 11)"

definition DateFromTime :: "int \<Rightarrow> int" where
  "DateFromTime t = (let d = DayWithinYear t; l = InLeapYear t; m = MonthFromTime t in
     if m = 0 then d + 1 else if m = 1 then d - 30 else if m = 2 then d - 58 - l
     else if m = 3 then d - 89 - l else if m = 4 then d - 119 - l else if m = 5 then d - 150 - l
     else if m = 6 then d - 180 - l else if m = 7 then d - 211 - l else if m = 8 then d - 242 - l
     else if m = 9 then d - 272 - l else if m = 10 then d - 303 - l else d - 333 - l)"

definition WeekDay :: "int \<Rightarrow> int" where
  "WeekDay t = (Day t + 4) mod 7"

definition MakeTime :: "int \<Rightarrow> int \<Rightarrow> int \<Rightarrow> int \<Rightarrow> int" where
  "MakeTime hour minute sec ms = hour * 3600000 + minute * 60000 + sec * 1000 + ms"

text \<open>Day offset of the first day of month \<open>mn\<close> (0 to 11) in a year with \<open>l\<close> leap days.\<close>

definition monthOffset :: "int \<Rightarrow> int \<Rightarrow> int" where
  "monthOffset mn l =
    (if mn = 0 then 0 else if mn = 1 then 31 else if mn = 2 then 59 + l
     else if mn = 3 then 90 + l else if mn = 4 then 120 + l else if mn = 5 then 151 + l
     else if mn = 6 then 181 + l else if mn = 7 then 212 + l else if mn = 8 then 243 + l
     else if mn = 9 then 273 + l else if mn = 10 then 304 + l else 334 + l)"

text \<open>
  \<open>MakeDay\<close>: months outside 0..11 carry into the year, and the date is an offset from the
  first of the month, so it may be zero, negative or beyond the month's length.
  (\<open>month_components\<close> below shows that the day found for date 1 has the year, month and
  date ECMAScript asks for.)
\<close>

definition MakeDay :: "int \<Rightarrow> int \<Rightarrow> int \<Rightarrow> int" where
  "MakeDay year month date = (let ym = year + month div 12; mn = month mod 12 in
     DayFromYear ym + monthOffset mn (if DaysInYear ym = 366 then 1 else 0) + date - 1)"

definition MakeDate :: "int \<Rightarrow> int \<Rightarrow> int" where
  "MakeDate day time = day * msPerDay + time"

definition maxTime :: int where
  "maxTime = 8640000000000000"

definition TimeClip :: "int \<Rightarrow> jsnum" where
  "TimeClip t = (if \<bar>t\<bar> > maxTime then NaN else Num t)"

subsection \<open>The Date constructor, \<^verbatim>\<open>Date.UTC\<close>, getters and setters\<close>

text \<open>\<^verbatim>\<open>new Date(d)\<close> for a Date or a number \<open>d\<close>: a fresh Date with the clipped time value.\<close>

fun new_Date :: "jsnum \<Rightarrow> jsnum" where
  "new_Date NaN = NaN"
| "new_Date (Num t) = TimeClip t"

text \<open>\<^verbatim>\<open>Date.UTC(year, month, date, hours, minutes, seconds, ms)\<close>. A year from 0 to 99 means 1900 + year.\<close>

fun Date_UTC :: "jsnum \<Rightarrow> jsnum \<Rightarrow> jsnum \<Rightarrow> jsnum \<Rightarrow> jsnum \<Rightarrow> jsnum \<Rightarrow> jsnum \<Rightarrow> jsnum" where
  "Date_UTC (Num y) (Num m) (Num dt) (Num h) (Num mi) (Num s) (Num milli) =
     (let yr = (if 0 \<le> y \<and> y \<le> 99 then 1900 + y else y)
      in TimeClip (MakeDate (MakeDay yr m dt) (MakeTime h mi s milli)))"
| "Date_UTC _ _ _ _ _ _ _ = NaN"

text \<open>\<^verbatim>\<open>Date.UTC(year, month, date)\<close>: the omitted time fields are 0.\<close>

definition Date_UTC3 :: "jsnum \<Rightarrow> jsnum \<Rightarrow> jsnum \<Rightarrow> jsnum" where
  "Date_UTC3 year month date = Date_UTC year month date (Num 0) (Num 0) (Num 0) (Num 0)"

fun getUTCFullYear :: "jsnum \<Rightarrow> jsnum" where
  "getUTCFullYear NaN = NaN"
| "getUTCFullYear (Num t) = Num (YearFromTime t)"

fun getUTCMonth :: "jsnum \<Rightarrow> jsnum" where
  "getUTCMonth NaN = NaN"
| "getUTCMonth (Num t) = Num (MonthFromTime t)"

fun getUTCDate :: "jsnum \<Rightarrow> jsnum" where
  "getUTCDate NaN = NaN"
| "getUTCDate (Num t) = Num (DateFromTime t)"

fun getUTCDay :: "jsnum \<Rightarrow> jsnum" where
  "getUTCDay NaN = NaN"
| "getUTCDay (Num t) = Num (WeekDay t)"

fun setUTCDate :: "jsnum \<Rightarrow> jsnum \<Rightarrow> jsnum" where
  "setUTCDate (Num t) (Num dt) =
     TimeClip (MakeDate (MakeDay (YearFromTime t) (MonthFromTime t) dt) (TimeWithinDay t))"
| "setUTCDate _ _ = NaN"

fun setUTCMonth :: "jsnum \<Rightarrow> jsnum \<Rightarrow> jsnum" where
  "setUTCMonth (Num t) (Num m) =
     TimeClip (MakeDate (MakeDay (YearFromTime t) m (DateFromTime t)) (TimeWithinDay t))"
| "setUTCMonth _ _ = NaN"

subsection \<open>Strings: \<^verbatim>\<open>split\<close>, \<^verbatim>\<open>Number\<close>, \<^verbatim>\<open>String\<close>, \<^verbatim>\<open>padStart\<close>\<close>

text \<open>\<^verbatim>\<open>s.split(c)\<close> for a one-character separator.\<close>

fun split_on :: "char \<Rightarrow> string \<Rightarrow> string list" where
  "split_on c [] = [[]]"
| "split_on c (x # xs) =
     (if x = c then [] # split_on c xs
      else (case split_on c xs of [] \<Rightarrow> [[x]] | p # ps \<Rightarrow> (x # p) # ps))"

definition is_digit :: "char \<Rightarrow> bool" where
  "is_digit c = (48 \<le> (of_char c :: nat) \<and> (of_char c :: nat) \<le> 57)"

definition digit_val :: "char \<Rightarrow> int" where
  "digit_val c = of_char c - 48"

fun decimal :: "int \<Rightarrow> string \<Rightarrow> int" where
  "decimal acc [] = acc"
| "decimal acc (c # cs) = decimal (10 * acc + digit_val c) cs"

subsection \<open>Number values and \<^verbatim>\<open>Number(string)\<close>\<close>

text \<open>
  A Number is an IEEE 754 double: NaN, an infinity (\<open>FInf True\<close> is \<^verbatim>\<open>+Infinity\<close>), or a finite
  value \<open>Fin n p\<close>, which stands for \<open>n * 2 ^ p\<close> (\<open>p\<close> may be negative; the two zeros are not
  told apart, since the code only tests them for truthiness and truncates them). The Date
  arithmetic above works on integers: \<^verbatim>\<open>Date.UTC\<close> applies ToIntegerOrInfinity to each argument
  first, see \<open>ToInteger\<close> below.
\<close>

datatype jsfloat = FNaN | FInf bool | Fin int int

text \<open>The number of binary digits of a positive integer.\<close>

function bits :: "int \<Rightarrow> int" where
  "bits n = (if n \<le> 0 then 0 else 1 + bits (n div 2))"
  by pat_completeness auto
termination
  by (relation "measure nat") auto

declare bits.simps [simp del]

text \<open>\<open>pow2_le k a b\<close>: \<open>2 ^ k \<le> a / b\<close>, for an integer \<open>k\<close> and \<open>0 < b\<close>.\<close>

definition pow2_le :: "int \<Rightarrow> int \<Rightarrow> int \<Rightarrow> bool" where
  "pow2_le k a b = (if 0 \<le> k then 2 ^ nat k * b \<le> a else b \<le> a * 2 ^ nat (- k))"

text \<open>The integer nearest to \<open>a / b\<close>, the even one of two equally near (\<open>0 \<le> a\<close>, \<open>0 < b\<close>).\<close>

definition round_half_even :: "int \<Rightarrow> int \<Rightarrow> int" where
  "round_half_even a b =
     (let f = a div b; r = a mod b
      in if 2 * r < b then f else if b < 2 * r then f + 1 else if even f then f else f + 1)"

text \<open>
  The double nearest to the rational \<open>a / b\<close> (\<open>0 \<le> a\<close>, \<open>0 < b\<close>), ties to even: with
  \<open>2 ^ e \<le> a / b < 2 ^ (e + 1)\<close> the result is a multiple of \<open>2 ^ (e - 52)\<close>, of \<open>2 ^ - 1074\<close>
  for a subnormal one, and \<^verbatim>\<open>Infinity\<close> from \<open>2 ^ 1024 - 2 ^ 970\<close> on.
\<close>

definition round_double :: "int \<Rightarrow> int \<Rightarrow> jsfloat" where
  "round_double a b =
     (if a = 0 then Fin 0 0
      else let k = bits a - bits b;
               e = (if pow2_le k a b then k else k - 1);
               p = max e (- 1022) - 52;
               n = (if 0 \<le> p then round_half_even a (b * 2 ^ nat p)
                    else round_half_even (a * 2 ^ nat (- p)) b)
           in if 971 < p \<or> (p = 971 \<and> 2 ^ 53 \<le> n) then FInf True else Fin n p)"

fun negate :: "jsfloat \<Rightarrow> jsfloat" where
  "negate FNaN = FNaN"
| "negate (FInf s) = FInf (\<not> s)"
| "negate (Fin n p) = Fin (- n) p"

definition round_signed :: "int \<Rightarrow> int \<Rightarrow> jsfloat" where
  "round_signed a b = (if a < 0 then negate (round_double (- a) b) else round_double a b)"

text \<open>\<^verbatim>\<open>x - k\<close> for a Number \<open>x\<close> and an integer \<open>k\<close>: the exact difference, rounded.\<close>

fun float_sub :: "jsfloat \<Rightarrow> int \<Rightarrow> jsfloat" where
  "float_sub FNaN k = FNaN"
| "float_sub (FInf s) k = FInf s"
| "float_sub (Fin n p) k =
     (if 0 \<le> p then round_signed (n * 2 ^ nat p - k) 1
      else round_signed (n - k * 2 ^ nat (- p)) (2 ^ nat (- p)))"

text \<open>Truthiness of a Number: false for NaN and for zero.\<close>

fun truthy_float :: "jsfloat \<Rightarrow> bool" where
  "truthy_float FNaN = False"
| "truthy_float (FInf s) = True"
| "truthy_float (Fin n p) = (n \<noteq> 0)"

text \<open>
  ToIntegerOrInfinity, as \<^verbatim>\<open>Date.UTC\<close> applies it to an argument: a finite value is truncated
  towards zero; NaN and the infinities make the time value NaN all the same, so they are
  mapped to \<open>NaN\<close> here.
\<close>

fun ToInteger :: "jsfloat \<Rightarrow> jsnum" where
  "ToInteger FNaN = NaN"
| "ToInteger (FInf s) = NaN"
| "ToInteger (Fin n p) =
     (if 0 \<le> p then Num (n * 2 ^ nat p)
      else if 0 \<le> n then Num (n div 2 ^ nat (- p))
      else Num (- ((- n) div 2 ^ nat (- p))))"

text \<open>
  White space, as \<^verbatim>\<open>Number\<close> strips it from both ends of a string: the WhiteSpace and
  LineTerminator code points, each in its UTF-8 encoding (a string is modelled as the sequence
  of its UTF-8 bytes): TAB, LF, VT, FF, CR, SP, U+00A0, U+1680, U+2000 to U+200A, U+2028, U+2029,
  U+202F, U+205F, U+3000, U+FEFF.
\<close>

definition white_space :: "string list" where
  "white_space =
     [[CHR 0x09], [CHR 0x0A], [CHR 0x0B], [CHR 0x0C], [CHR 0x0D], [CHR 0x20],
      [CHR 0xC2, CHR 0xA0], [CHR 0xE1, CHR 0x9A, CHR 0x80],
      [CHR 0xE2, CHR 0x80, CHR 0x80], [CHR 0xE2, CHR 0x80, CHR 0x81], [CHR 0xE2, CHR 0x80, CHR 0x82],
      [CHR 0xE2, CHR 0x80, CHR 0x83], [CHR 0xE2, CHR 0x80, CHR 0x84], [CHR 0xE2, CHR 0x80, CHR 0x85],
      [CHR 0xE2, CHR 0x80, CHR 0x86], [CHR 0xE2, CHR 0x80, CHR 0x87], [CHR 0xE2, CHR 0x80, CHR 0x88],
      [CHR 0xE2, CHR 0x80, CHR 0x89], [CHR 0xE2, CHR 0x80, CHR 0x8A],
      [CHR 0xE2, CHR 0x80, CHR 0xA8], [CHR 0xE2, CHR 0x80, CHR 0xA9], [CHR 0xE2, CHR 0x80, CHR 0xAF],
      [CHR 0xE2, CHR 0x81, CHR 0x9F], [CHR 0xE3, CHR 0x80, CHR 0x80], [CHR 0xEF, CHR 0xBB, CHR 0xBF]]"

text \<open>\<open>strip_from ws s\<close> drops from the front of \<open>s\<close> every leading occurrence of a member of \<open>ws\<close>.\<close>

function strip_from :: "string list \<Rightarrow> string \<Rightarrow> string" where
  "strip_from ws s =
     (case find (\<lambda>w. w \<noteq> [] \<and> take (length w) s = w) ws of
        None \<Rightarrow> s
      | Some w \<Rightarrow> strip_from ws (drop (length w) s))"
  by pat_completeness auto
termination
proof (relation "measure (\<lambda>(ws, s). length s)")
  show "wf (measure (\<lambda>(ws, s). length s))" by simp
next
  fix ws :: "string list" and s w :: string
  assume "find (\<lambda>w. w \<noteq> [] \<and> take (length w) s = w) ws = Some w"
  then have w: "w \<noteq> []" "take (length w) s = w" by (auto simp: find_Some_iff)
  then have "s \<noteq> []" by auto
  then show "((ws, drop (length w) s), (ws, s)) \<in> measure (\<lambda>(ws, s). length s)"
    using w(1) by simp
qed

declare strip_from.simps [simp del]

definition trim :: "string \<Rightarrow> string" where
  "trim s = rev (strip_from (map rev white_space) (rev (strip_from white_space s)))"

text \<open>The value of a digit in a radix up to 16.\<close>

definition digit_of :: "char \<Rightarrow> int option" where
  "digit_of c = (let n = (of_char c :: nat) in
     if 48 \<le> n \<and> n \<le> 57 then Some (int n - 48)
     else if 97 \<le> n \<and> n \<le> 102 then Some (int n - 87)
     else if 65 \<le> n \<and> n \<le> 70 then Some (int n - 55)
     else None)"

fun radix_value :: "int \<Rightarrow> int \<Rightarrow> string \<Rightarrow> int option" where
  "radix_value r acc [] = Some acc"
| "radix_value r acc (c # cs) =
     (case digit_of c of
        None \<Rightarrow> None
      | Some v \<Rightarrow> if v < r then radix_value r (acc * r + v) cs else None)"

text \<open>The digits of a NonDecimalIntegerLiteral after its prefix: at least one, all below the radix.\<close>

definition radix_literal :: "int \<Rightarrow> string \<Rightarrow> jsfloat" where
  "radix_literal r s =
     (if s = [] then FNaN
      else case radix_value r 0 s of None \<Rightarrow> FNaN | Some v \<Rightarrow> round_double v 1)"

definition digits_value :: "string \<Rightarrow> int option" where
  "digits_value s = (if s \<noteq> [] \<and> list_all is_digit s then Some (decimal 0 s) else None)"

text \<open>SignedInteger: decimal digits after an optional sign.\<close>

definition signed_integer :: "string \<Rightarrow> int option" where
  "signed_integer s =
     (case s of
        [] \<Rightarrow> None
      | c # r \<Rightarrow> if c = CHR ''+'' then digits_value r
                 else if c = CHR ''-'' then map_option uminus (digits_value r)
                 else digits_value s)"

text \<open>The optional ExponentPart that ends a decimal literal: its value, 0 when it is absent.\<close>

definition exponent_part :: "string \<Rightarrow> int option" where
  "exponent_part s =
     (case s of
        [] \<Rightarrow> Some 0
      | c # r \<Rightarrow> if c = CHR ''e'' \<or> c = CHR ''E'' then signed_integer r else None)"

text \<open>
  A decimal literal other than \<^verbatim>\<open>Infinity\<close>: digits, then optionally a point and digits, then
  optionally an exponent; there is a digit before or after the point. Its value
  \<open>digits * 10 ^ (exponent - number of fraction digits)\<close> is returned as a fraction \<open>(a, b)\<close>.
\<close>

definition decimal_literal :: "string \<Rightarrow> (int \<times> int) option" where
  "decimal_literal s =
     (let ip = takeWhile is_digit s;
          r1 = dropWhile is_digit s;
          dot = (r1 \<noteq> [] \<and> hd r1 = CHR ''.'');
          fp = (if dot then takeWhile is_digit (tl r1) else []);
          r2 = (if dot then dropWhile is_digit (tl r1) else r1)
      in if ip = [] \<and> fp = [] then None
         else case exponent_part r2 of
                None \<Rightarrow> None
              | Some ex \<Rightarrow>
                  let k = ex - int (length fp); v = decimal 0 (ip @ fp)
                  in if 0 \<le> k then Some (v * 10 ^ nat k, 1) else Some (v, 10 ^ nat (- k)))"

text \<open>StrUnsignedDecimalLiteral.\<close>

definition unsigned_decimal :: "string \<Rightarrow> jsfloat" where
  "unsigned_decimal s =
     (if s = ''Infinity'' then FInf True
      else case decimal_literal s of None \<Rightarrow> FNaN | Some (a, b) \<Rightarrow> round_double a b)"

text \<open>
  StrNumericLiteral: a binary, octal or hexadecimal integer literal (no sign), or a decimal
  literal after an optional sign.
\<close>

definition numeric_literal :: "string \<Rightarrow> jsfloat" where
  "numeric_literal t =
     (case t of
        [] \<Rightarrow> FNaN
      | c # r \<Rightarrow>
          if c = CHR ''+'' then unsigned_decimal r
          else if c = CHR ''-'' then negate (unsigned_decimal r)
          else if c = CHR ''0'' \<and> r \<noteq> [] \<and> hd r \<in> {CHR ''x'', CHR ''X''} then radix_literal 16 (tl r)
          else if c = CHR ''0'' \<and> r \<noteq> [] \<and> hd r \<in> {CHR ''o'', CHR ''O''} then radix_literal 8 (tl r)
          else if c = CHR ''0'' \<and> r \<noteq> [] \<and> hd r \<in> {CHR ''b'', CHR ''B''} then radix_literal 2 (tl r)
          else unsigned_decimal t)"

text \<open>
  \<^verbatim>\<open>Number(s)\<close> for a string (StringToNumber): white space is stripped from both ends, the
  empty string is 0, a string that is not a numeric literal is NaN, and the mathematical value
  of a literal is rounded to the nearest double. (The language lets an engine approximate a
  decimal literal of more than 20 significant digits; the engines round it correctly, as here.)
\<close>

definition Number_js :: "string \<Rightarrow> jsfloat" where
  "Number_js s = (let t = trim s in if t = [] then Fin 0 0 else numeric_literal t)"

function digits_of :: "nat \<Rightarrow> string" where
  "digits_of n = (if n < 10 then [char_of (48 + n)] else digits_of (n div 10) @ [char_of (48 + n mod 10)])"
  by pat_completeness auto
termination
  by (relation "measure id") auto

text \<open>\<^verbatim>\<open>String(x)\<close> and template interpolation of a number.\<close>

fun String_js :: "jsnum \<Rightarrow> string" where
  "String_js NaN = ''NaN''"
| "String_js (Num n) = (if n < 0 then CHR ''-'' # digits_of (nat (- n)) else digits_of (nat n))"

definition padStart :: "string \<Rightarrow> nat \<Rightarrow> char \<Rightarrow> string" where
  "padStart s n c = replicate (n - length s) c @ s"

section \<open>The controller's helper functions\<close>

text \<open>An array element read by destructuring: \<^verbatim>\<open>undefined\<close> (here \<open>None\<close>) past the end.\<close>

definition element :: "'a list \<Rightarrow> nat \<Rightarrow> 'a option" where
  "element xs i = (if i < length xs then Some (xs ! i) else None)"

text \<open>\<^verbatim>\<open>!x\<close> for a Number or \<^verbatim>\<open>undefined\<close>.\<close>

fun js_not :: "jsfloat option \<Rightarrow> bool" where
  "js_not None = True"
| "js_not (Some x) = (\<not> truthy_float x)"

text \<open>
  \<^verbatim>\<open>toUTCDateOnly(dateStr)\<close>: \<open>None\<close> as argument is \<^verbatim>\<open>undefined\<close> (the query parameter is
  absent), \<open>None\<close> as result is \<^verbatim>\<open>null\<close>. The three fields are Numbers, \<^verbatim>\<open>m - 1\<close> is a
  floating-point subtraction, and \<^verbatim>\<open>Date.UTC\<close> truncates its arguments to integers.
\<close>

definition toUTCDateOnly :: "string option \<Rightarrow> jsnum option" where
  "toUTCDateOnly dateStr =
    (case dateStr of None \<Rightarrow> None
     | Some s \<Rightarrow>
        if s = [] then None
        else let parts = map Number_js (split_on CHR ''-'' s);
                 y = element parts 0; m = element parts 1; d = element parts 2
             in if js_not y \<or> js_not m \<or> js_not d then None
                else Some (new_Date (Date_UTC (ToInteger (the y)) (ToInteger (float_sub (the m) 1))
                                       (ToInteger (the d)) (Num 0) (Num 0) (Num 0) (Num 0))))"

definition fmt :: "jsnum \<Rightarrow> string" where
  "fmt d = (let y = getUTCFullYear d;
                m = padStart (String_js (js_add (getUTCMonth d) (Num 1))) 2 CHR ''0'';
                dd = padStart (String_js (getUTCDate d)) 2 CHR ''0''
            in String_js y @ ''-'' @ m @ ''-'' @ dd)"

definition startOfDayUTC :: "jsnum \<Rightarrow> jsnum" where
  "startOfDayUTC d = new_Date (Date_UTC3 (getUTCFullYear d) (getUTCMonth d) (getUTCDate d))"

definition endOfDayUTC :: "jsnum \<Rightarrow> jsnum" where
  "endOfDayUTC d = new_Date (Date_UTC (getUTCFullYear d) (getUTCMonth d) (getUTCDate d)
                                      (Num 23) (Num 59) (Num 59) (Num 999))"

definition startOfISOWeekUTC :: "jsnum \<Rightarrow> jsnum" where
  "startOfISOWeekUTC d =
    (let day = js_or (getUTCDay d) (Num 7);
         start = new_Date (Date_UTC3 (getUTCFullYear d) (getUTCMonth d) (getUTCDate d));
         start = setUTCDate start (js_sub (getUTCDate start) (js_sub day (Num 1)))
     in startOfDayUTC start)"

definition endOfISOWeekUTC :: "jsnum \<Rightarrow> jsnum" where
  "endOfISOWeekUTC d =
    (let start = startOfISOWeekUTC d;
         end0 = new_Date start;
         end0 = setUTCDate end0 (js_add (getUTCDate end0) (Num 6))
     in endOfDayUTC end0)"

definition startOfMonthUTC :: "jsnum \<Rightarrow> jsnum" where
  "startOfMonthUTC d = new_Date (Date_UTC3 (getUTCFullYear d) (getUTCMonth d) (Num 1))"

definition endOfMonthUTC :: "jsnum \<Rightarrow> jsnum" where
  "endOfMonthUTC d =
     endOfDayUTC (new_Date (Date_UTC3 (getUTCFullYear d) (js_add (getUTCMonth d) (Num 1)) (Num 0)))"

definition addDaysUTC :: "jsnum \<Rightarrow> jsnum \<Rightarrow> jsnum" where
  "addDaysUTC d days = (let res = new_Date d in setUTCDate res (js_add (getUTCDate res) days))"

definition addMonthsUTC :: "jsnum \<Rightarrow> jsnum \<Rightarrow> jsnum" where
  "addMonthsUTC d months =
    (let res = new_Date (Date_UTC3 (getUTCFullYear d) (getUTCMonth d) (getUTCDate d))
     in setUTCMonth res (js_add (getUTCMonth res) months))"

section \<open>buildBuckets\<close>

record bucket =
  start :: jsnum
  end_b :: jsnum

record plan =
  rangeStart :: jsnum
  rangeEnd :: jsnum
  buckets :: "bucket list"

text \<open>
  The closures \<^verbatim>\<open>makeBucket\<close> and \<^verbatim>\<open>advance\<close> chosen by the if-chain on \<^verbatim>\<open>bucket\<close>
  (\<open>g\<close> here): month, week, and day for every other value.
\<close>

definition makeBucket :: "string \<Rightarrow> jsnum \<Rightarrow> bucket" where
  "makeBucket g d =
    (if g = ''month'' then \<lparr>start = startOfMonthUTC d, end_b = endOfMonthUTC d\<rparr>
     else if g = ''week'' then \<lparr>start = startOfISOWeekUTC d, end_b = endOfISOWeekUTC d\<rparr>
     else \<lparr>start = startOfDayUTC d, end_b = endOfDayUTC d\<rparr>)"

definition advance :: "string \<Rightarrow> jsnum \<Rightarrow> jsnum" where
  "advance g d =
    (if g = ''month'' then addMonthsUTC d (Num 1)
     else if g = ''week'' then addDaysUTC d (Num 7)
     else addDaysUTC d (Num 1))"

text \<open>
  The loop \<^verbatim>\<open>while (cursor <= rangeEnd) { buckets.push(makeBucket(cursor)); cursor = advance(cursor) }\<close>.
  \<open>None\<close> stands for a loop that does not return.
\<close>

partial_function (option) enumerate_buckets ::
    "string \<Rightarrow> jsnum \<Rightarrow> jsnum \<Rightarrow> bucket list \<Rightarrow> bucket list option" where
  "enumerate_buckets g cursor rEnd bs =
    (if js_le cursor rEnd
     then enumerate_buckets g (advance g cursor) rEnd (bs @ [makeBucket g cursor])
     else Some bs)"

declare enumerate_buckets.simps [code]

text \<open>The default start of the range when \<^verbatim>\<open>startDate\<close> is missing (lines 155 to 169).\<close>

definition defaultStart :: "string \<Rightarrow> jsnum \<Rightarrow> jsnum" where
  "defaultStart g rEnd =
    (if g = ''month'' then
       (let tmp = new_Date rEnd; tmp = setUTCMonth tmp (js_sub (getUTCMonth tmp) (Num 5))
        in startOfMonthUTC tmp)
     else if g = ''week'' then
       (let tmp = new_Date rEnd; tmp = setUTCDate tmp (js_sub (getUTCDate tmp) (Num (7 * 11)))
        in startOfISOWeekUTC tmp)
     else
       (let tmp = new_Date rEnd; tmp = setUTCDate tmp (js_sub (getUTCDate tmp) (Num 6))
        in startOfDayUTC tmp))"

text \<open>The snapping of the two boundaries to bucket edges (lines 175 to 193).\<close>

definition snapStart :: "string \<Rightarrow> jsnum \<Rightarrow> jsnum" where
  "snapStart g d =
    (if g = ''month'' then startOfMonthUTC d
     else if g = ''week'' then startOfISOWeekUTC d
     else startOfDayUTC d)"

definition snapEnd :: "string \<Rightarrow> jsnum \<Rightarrow> jsnum" where
  "snapEnd g d =
    (if g = ''month'' then endOfMonthUTC d
     else if g = ''week'' then endOfISOWeekUTC d
     else endOfDayUTC d)"

text \<open>
  \<^verbatim>\<open>buildBuckets({startDate, endDate, bucket})\<close>; \<open>now\<close> is the Date that \<^verbatim>\<open>new Date()\<close> returns.
\<close>

definition buildBuckets :: "jsnum \<Rightarrow> string option \<Rightarrow> string option \<Rightarrow> string \<Rightarrow> plan option" where
  "buildBuckets now startDate endDate g =
    (let rEnd0 = (case toUTCDateOnly endDate of None \<Rightarrow> startOfDayUTC now | Some e \<Rightarrow> e);
         rStart0 = (case toUTCDateOnly startDate of None \<Rightarrow> defaultStart g rEnd0 | Some s \<Rightarrow> s);
         rStart = snapStart g rStart0;
         rEnd = snapEnd g rEnd0;
         cursor = new_Date rStart
     in case enumerate_buckets g cursor rEnd [] of
          None \<Rightarrow> None
        | Some bs \<Rightarrow> Some \<lparr>rangeStart = rStart, rangeEnd = rEnd, buckets = bs\<rparr>)"

section \<open>The two handlers\<close>

text \<open>
  Rows of the tables \<^verbatim>\<open>product_trends\<close> and \<^verbatim>\<open>visitor_logs\<close> as Prisma returns them: the
  date columns are Date objects, the counters are integers (\<^verbatim>\<open>INTEGER NOT NULL\<close>).
\<close>

record productTrend =
  trend_id :: string
  date :: jsnum
  totalProducts :: int
  productsAdded :: int
  productsRemoved :: int

record visitorLog =
  log_id :: string
  visitedAt :: jsnum
  ip :: "string option"
  userAgent :: "string option"
  path :: "string option"

record bucketLabel =
  startDate :: string
  endDate :: string

text \<open>A row of \<^verbatim>\<open>trend\<close>; \<open>None\<close> in \<open>totalProducts_r\<close> is \<^verbatim>\<open>null\<close>.\<close>

record trendRow = bucketLabel +
  totalProducts_r :: "int option"
  productsAdded_r :: int
  productsRemoved_r :: int

record visitorRow = bucketLabel +
  visitors :: int

record productsBody =
  currentTotal :: int
  trend :: "trendRow list"

record visitorsBody =
  totalVisitors :: int
  visitorsByBucket :: "visitorRow list"

text \<open>\<^verbatim>\<open>req.query\<close>: each parameter is a string or absent.\<close>

record query =
  startDate_q :: "string option"
  endDate_q :: "string option"
  bucket_q :: "string option"

text \<open>\<^verbatim>\<open>res.json(body)\<close>, or \<^verbatim>\<open>res.status(500).json({error: "Internal server error"})\<close> from the catch block.\<close>

datatype 'a response = Json 'a | Status500

text \<open>\<^verbatim>\<open>n || 0\<close> on an integer.\<close>

definition or0 :: "int \<Rightarrow> int" where
  "or0 n = (if n \<noteq> 0 then n else 0)"

text \<open>\<^verbatim>\<open>t.date >= start && t.date <= end\<close>.\<close>

definition in_bucket :: "bucket \<Rightarrow> jsnum \<Rightarrow> bool" where
  "in_bucket b d = (js_ge d (start b) \<and> js_le d (end_b b))"

text \<open>The callback of \<^verbatim>\<open>buckets.map\<close> in the products handler (lines 20 to 32).\<close>

definition trendRow_of :: "productTrend list \<Rightarrow> bucket \<Rightarrow> trendRow" where
  "trendRow_of trends b =
    (let items = filter (\<lambda>t. in_bucket b (date t)) trends;
         added = foldl (\<lambda>sum it. sum + or0 (productsAdded it)) 0 items;
         removed = foldl (\<lambda>sum it. sum + or0 (productsRemoved it)) 0 items;
         lst = (if length items \<noteq> 0 then Some (items ! (length items - 1)) else None)
     in \<lparr>startDate = fmt (start b), endDate = fmt (end_b b),
         totalProducts_r = (case lst of Some l \<Rightarrow> Some (totalProducts l) | None \<Rightarrow> None),
         productsAdded_r = added, productsRemoved_r = removed\<rparr>)"

text \<open>
  The forward-fill loop (lines 34 to 41), left to right over \<^verbatim>\<open>trendByBucket\<close>;
  the first argument is \<^verbatim>\<open>lastTotal\<close>.
\<close>

fun forwardFill :: "int option \<Rightarrow> trendRow list \<Rightarrow> trendRow list" where
  "forwardFill lastTotal [] = []"
| "forwardFill lastTotal (r # rs) =
    (case totalProducts_r r of
       None \<Rightarrow> r\<lparr>totalProducts_r := Some (case lastTotal of None \<Rightarrow> 0 | Some v \<Rightarrow> v)\<rparr>
                 # forwardFill lastTotal rs
     | Some v \<Rightarrow> r # forwardFill (Some v) rs)"

definition trendByBucket :: "productTrend list \<Rightarrow> bucket list \<Rightarrow> trendRow list" where
  "trendByBucket trends bs = forwardFill None (map (trendRow_of trends) bs)"

text \<open>
  \<^verbatim>\<open>getDashboardProductsHandler\<close>. The storage is a parameter: \<open>findMany rs re\<close> is the result
  of \<^verbatim>\<open>prisma.productTrend.findMany\<close> for the range and \<open>count\<close> that of
  \<^verbatim>\<open>prisma.product.count()\<close>, \<open>None\<close> when the call throws. The outer \<open>option\<close> is \<open>None\<close>
  when the handler does not return.
\<close>

definition getDashboardProductsHandler ::
    "jsnum \<Rightarrow> (jsnum \<Rightarrow> jsnum \<Rightarrow> productTrend list option) \<Rightarrow> int option \<Rightarrow> query
      \<Rightarrow> productsBody response option" where
  "getDashboardProductsHandler now findMany count q =
    (let g = (case bucket_q q of None \<Rightarrow> ''day'' | Some b \<Rightarrow> b) in
     case buildBuckets now (startDate_q q) (endDate_q q) g of
       None \<Rightarrow> None
     | Some p \<Rightarrow>
        (case findMany (rangeStart p) (rangeEnd p) of
           None \<Rightarrow> Some Status500
         | Some trends \<Rightarrow>
            (let rows = trendByBucket trends (buckets p) in
             case count of
               None \<Rightarrow> Some Status500
             | Some n \<Rightarrow> Some (Json \<lparr>currentTotal = n, trend = rows\<rparr>))))"

text \<open>The callback of \<^verbatim>\<open>buckets.map\<close> in the visitors handler (lines 71 to 78).\<close>

definition visitorRow_of :: "visitorLog list \<Rightarrow> bucket \<Rightarrow> visitorRow" where
  "visitorRow_of logs b =
    (let count = foldl (\<lambda>acc l. acc + (if in_bucket b (visitedAt l) then 1 else 0)) 0 logs
     in \<lparr>startDate = fmt (start b), endDate = fmt (end_b b), visitors = count\<rparr>)"

definition getDashboardVisitorsHandler ::
    "jsnum \<Rightarrow> (jsnum \<Rightarrow> jsnum \<Rightarrow> visitorLog list option) \<Rightarrow> query
      \<Rightarrow> visitorsBody response option" where
  "getDashboardVisitorsHandler now findMany q =
    (let g = (case bucket_q q of None \<Rightarrow> ''day'' | Some b \<Rightarrow> b) in
     case buildBuckets now (startDate_q q) (endDate_q q) g of
       None \<Rightarrow> None
     | Some p \<Rightarrow>
        (case findMany (rangeStart p) (rangeEnd p) of
           None \<Rightarrow> Some Status500
         | Some logs \<Rightarrow>
            Some (Json \<lparr>totalVisitors = int (length logs),
                        visitorsByBucket = map (visitorRow_of logs) (buckets p)\<rparr>)))"
section \<open>Notions used to state the properties\<close>

text \<open>The records of \<open>trends\<close> that fall in bucket \<open>b\<close> (the \<^verbatim>\<open>items\<close> of line 21).\<close>

definition items_of :: "productTrend list \<Rightarrow> bucket \<Rightarrow> productTrend list" where
  "items_of trends b = filter (\<lambda>t. in_bucket b (date t)) trends"

text \<open>Three day buckets (2025-09-01 to 2025-09-03) and two trend records, on the first and the third day.\<close>

definition ex_buckets :: "bucket list" where
  "ex_buckets =
    [\<lparr>start = Num 1756684800000, end_b = Num 1756771199999\<rparr>,
     \<lparr>start = Num 1756771200000, end_b = Num 1756857599999\<rparr>,
     \<lparr>start = Num 1756857600000, end_b = Num 1756943999999\<rparr>]"

definition ex_trends :: "productTrend list" where
  "ex_trends =
    [\<lparr>trend_id = ''a'', date = Num 1756700000000, totalProducts = 10, productsAdded = 5,
      productsRemoved = 2\<rparr>,
     \<lparr>trend_id = ''b'', date = Num 1756860000000, totalProducts = 15, productsAdded = 6,
      productsRemoved = 1\<rparr>]"

text \<open>The years that \<^verbatim>\<open>Date.UTC\<close> moves into the twentieth century.\<close>

definition two_digit_year :: "int \<Rightarrow> bool" where
  "two_digit_year y = (0 \<le> y \<and> y \<le> 99)"

text \<open>The year that \<^verbatim>\<open>Date.UTC\<close> uses for the year argument \<open>y\<close>.\<close>

definition utcYear :: "int \<Rightarrow> int" where
  "utcYear y = (if two_digit_year y then 1900 + y else y)"

text \<open>The first day of the month with index \<open>n = 12 * year + month\<close>.\<close>

definition monthDay :: "int \<Rightarrow> int" where
  "monthDay n = MakeDay 0 n 1"

text \<open>The time values a Date object can hold.\<close>

definition valid_time :: "int \<Rightarrow> bool" where
  "valid_time t = (- maxTime \<le> t \<and> t \<le> maxTime)"

text \<open>The day number of the Monday of the ISO week that contains day \<open>d\<close> (day 0 is a Thursday).\<close>

definition mondayOf :: "int \<Rightarrow> int" where
  "mondayOf d = d - (d + 3) mod 7"

text \<open>
  The instant \<open>t\<close>, the Monday and the Sunday of its ISO week all lie outside the years 0 to 99.
\<close>

definition week_plain :: "int \<Rightarrow> bool" where
  "week_plain t =
    (\<not> two_digit_year (YearFromTime t) \<and>
     \<not> two_digit_year (YearFromDay (mondayOf (Day t))) \<and>
     \<not> two_digit_year (YearFromDay (mondayOf (Day t) + 6)))"

text \<open>
  The lower edge of the bucket with index \<open>k\<close>: day \<open>k\<close>; the week that starts on the Monday
  \<open>7 * k - 3\<close> (day 0, 1970-01-01, is a Thursday); the month with index \<open>k = 12 * year + month\<close>.
\<close>

definition edge :: "string \<Rightarrow> int \<Rightarrow> int" where
  "edge g k =
    (if g = ''month'' then monthDay k * msPerDay
     else if g = ''week'' then (7 * k - 3) * msPerDay
     else k * msPerDay)"

text \<open>The index of the bucket that contains the instant \<open>t\<close>.\<close>

definition edge_index :: "string \<Rightarrow> int \<Rightarrow> int" where
  "edge_index g t =
    (if g = ''month'' then 12 * YearFromTime t + MonthFromTime t
     else if g = ''week'' then (Day t + 3) div 7
     else Day t)"

text \<open>The bucket with index \<open>k\<close>: from its lower edge to one millisecond before the next edge.\<close>

definition edge_bucket :: "string \<Rightarrow> int \<Rightarrow> bucket" where
  "edge_bucket g k = \<lparr>start = Num (edge g k), end_b = Num (edge g (k + 1) - 1)\<rparr>"

text \<open>
  \<open>tiles bs a b\<close>: the buckets \<open>bs\<close> are a non-empty sequence of non-empty intervals of valid
  instants, the first starts at \<open>a\<close>, the last ends at \<open>b\<close>, each ends one millisecond before
  the next starts, every instant from \<open>a\<close> to \<open>b\<close> and no other lies in a bucket, and no
  instant lies in two buckets.
\<close>

definition tiles :: "bucket list \<Rightarrow> int \<Rightarrow> int \<Rightarrow> bool" where
  "tiles bs a b =
    (bs \<noteq> [] \<and> start (hd bs) = Num a \<and> end_b (last bs) = Num b \<and>
     (\<forall>i < length bs. \<exists>s e. start (bs ! i) = Num s \<and> end_b (bs ! i) = Num e \<and> s \<le> e) \<and>
     (\<forall>i. Suc i < length bs \<longrightarrow> js_add (end_b (bs ! i)) (Num 1) = start (bs ! Suc i)) \<and>
     (\<forall>t. (a \<le> t \<and> t \<le> b) = (\<exists>i < length bs. in_bucket (bs ! i) (Num t))) \<and>
     (\<forall>t i j. i < length bs \<and> j < length bs \<and> in_bucket (bs ! i) (Num t)
               \<and> in_bucket (bs ! j) (Num t) \<longrightarrow> i = j))"

text \<open>The instant 0100-01-01T00:00:00.000Z, the first one after the years 0 to 99.\<close>

definition year100 :: int where
  "year100 = DayFromYear 100 * msPerDay"

text \<open>
  The instants on which the planner's snapping for granularity \<open>g\<close> is the calendar's:
  valid, not before the year 100 and, for weeks, in an ISO week that starts in the year 100 or
  later.
\<close>

definition plain :: "string \<Rightarrow> int \<Rightarrow> bool" where
  "plain g t =
    (valid_time t \<and> year100 \<le> t \<and> (g = ''week'' \<longrightarrow> DayFromYear 100 \<le> mondayOf (Day t)))"

text \<open>A query whose end date is before its start date.\<close>

definition ex_reversed :: query where
  "ex_reversed = \<lparr>startDate_q = Some ''2025-09-10'', endDate_q = Some ''2025-09-01'', bucket_q = None\<rparr>"

text \<open>
  The values of \<^verbatim>\<open>rangeEnd\<close> and \<^verbatim>\<open>rangeStart\<close> after the defaulting (line 169) and before the
  snapping: the dates in effect.
\<close>

definition effectiveEnd :: "jsnum \<Rightarrow> string option \<Rightarrow> jsnum" where
  "effectiveEnd now ed = (case toUTCDateOnly ed of None \<Rightarrow> startOfDayUTC now | Some e \<Rightarrow> e)"

definition effectiveStart :: "jsnum \<Rightarrow> string option \<Rightarrow> string option \<Rightarrow> string \<Rightarrow> jsnum" where
  "effectiveStart now sd ed g =
    (case toUTCDateOnly sd of None \<Rightarrow> defaultStart g (effectiveEnd now ed) | Some s \<Rightarrow> s)"


text \<open>A trend record dated 2000-01-03T00:00:00Z.\<close>

definition ex_late_trend :: productTrend where
  "ex_late_trend = \<lparr>trend_id = ''c'', date = Num 946857600000, totalProducts = 1,
     productsAdded = 1, productsRemoved = 0\<rparr>"

text \<open>
  The characters (bytes) that can occur in a string that \<^verbatim>\<open>Number\<close> converts to a number:
  decimal and hexadecimal digits, the letters of \<^verbatim>\<open>Infinity\<close>, of an exponent and of a radix
  prefix, the point, the signs, and white space.
\<close>

definition numeric_char :: "char \<Rightarrow> bool" where
  "numeric_char c =
    (is_digit c \<or> digit_of c \<noteq> None \<or> c \<in> set ''Infinity.eE+-xXoObB'' \<or> c \<in> set (concat white_space))"
section \<open>Calendar arithmetic\<close>

lemma div_bounds: "0 < k \<Longrightarrow> k * (a div k) \<le> a \<and> a < k * (a div k) + (k::int)"
  using mult_div_mod_eq[of k a] pos_mod_sign[of k a] pos_mod_bound[of k a] by linarith

lemma div_succ:
  assumes k: "0 < (k::int)"
  shows "(a + 1) div k = a div k + (if (a + 1) mod k = 0 then 1 else 0)"
proof (cases "(a + 1) mod k = 0")
  case True
  have "a + 1 = k * ((a + 1) div k)" using mult_div_mod_eq[of k "a + 1"] True by simp
  then have "a = k * ((a + 1) div k - 1) + (k - 1)" by (simp add: algebra_simps)
  then have "a div k = (a + 1) div k - 1" using k by (intro int_div_pos_eq[where r = "k - 1"]) auto
  with True show ?thesis by simp
next
  case False
  define r where "r = (a + 1) mod k"
  have r: "0 < r" "r < k"
    using False pos_mod_sign[OF k, of "a + 1"] pos_mod_bound[OF k, of "a + 1"]
    unfolding r_def by linarith+
  have "a + 1 = k * ((a + 1) div k) + r" using mult_div_mod_eq[of k "a + 1"] by (simp add: r_def)
  then have "a = k * ((a + 1) div k) + (r - 1)" by simp
  then have "a div k = (a + 1) div k" using r by (intro int_div_pos_eq[where r = "r - 1"]) auto
  with False show ?thesis by simp
qed

lemma DayFromYear_step: "DayFromYear (y + 1) = DayFromYear y + DaysInYear y"
proof -
  have m4: "(y - 1968) mod 4 = y mod 4" using mod_mult_self1[of y "-492" 4] by simp
  have m100: "(y - 1900) mod 100 = y mod 100" using mod_mult_self1[of y "-19" 100] by simp
  have m400: "(y - 1600) mod 400 = y mod 400" using mod_mult_self1[of y "-4" 400] by simp
  have d4: "y mod 100 = 0 \<Longrightarrow> y mod 4 = 0" using mod_mod_cancel[of 4 100 y] by simp
  have d100: "y mod 400 = 0 \<Longrightarrow> y mod 100 = 0" using mod_mod_cancel[of 100 400 y] by simp
  have a: "(y + 1 - 1969) div 4 = (y - 1969) div 4 + (if y mod 4 = 0 then 1 else 0)"
    using div_succ[of 4 "y - 1969"] m4 by (simp add: algebra_simps)
  have b: "(y + 1 - 1901) div 100 = (y - 1901) div 100 + (if y mod 100 = 0 then 1 else 0)"
    using div_succ[of 100 "y - 1901"] m100 by (simp add: algebra_simps)
  have c: "(y + 1 - 1601) div 400 = (y - 1601) div 400 + (if y mod 400 = 0 then 1 else 0)"
    using div_succ[of 400 "y - 1601"] m400 by (simp add: algebra_simps)
  show ?thesis
    unfolding DayFromYear_def DaysInYear_def a b c using d4 d100 by auto
qed

lemma DaysInYear_cases: "DaysInYear y = 365 \<or> DaysInYear y = 366"
  by (simp add: DaysInYear_def)

lemma DayFromYear_less: "DayFromYear y < DayFromYear (y + 1)"
  using DayFromYear_step[of y] DaysInYear_cases[of y] by linarith

lemma DayFromYear_mono: "y \<le> z \<Longrightarrow> DayFromYear y \<le> DayFromYear z"
proof (induction z rule: int_ge_induct)
  case base
  show ?case by simp
next
  case (step i)
  then show ?case using DayFromYear_less[of i] by linarith
qed

lemma DayFromYear_strict: "y < z \<Longrightarrow> DayFromYear y < DayFromYear z"
  using DayFromYear_mono[of "y + 1" z] DayFromYear_less[of y] by linarith

lemma YearFromDay_lower: "DayFromYear (YearFromDay d) \<le> d"
proof -
  define x where "x = (400 * d) div 146097"
  define q4 where "q4 = x div 4"
  define q100 where "q100 = (x + 68) div 100"
  define q400 where "q400 = (x + 368) div 400"
  have e: "146097 * x \<le> 400 * d"
    using div_bounds[of 146097 "400 * d"] by (simp add: x_def)
  have q: "4 * q4 \<le> x" "x + 68 < 100 * q100 + 100" "400 * q400 \<le> x + 368"
    using div_bounds[of 4 x] div_bounds[of 100 "x + 68"] div_bounds[of 400 "x + 368"]
    by (simp_all add: q4_def q100_def q400_def)
  have "DayFromYear (1970 + x - 1) = 365 * x - 365 + q4 - q100 + q400"
    by (simp add: DayFromYear_def q4_def q100_def q400_def add.commute)
  moreover have "365 * x - 365 + q4 - q100 + q400 \<le> d" using e q by linarith
  ultimately have "DayFromYear (1970 + x - 1) \<le> d" by simp
  then show ?thesis unfolding YearFromDay_def Let_def x_def[symmetric] by simp
qed

lemma YearFromDay_upper: "d < DayFromYear (YearFromDay d + 1)"
proof -
  define x where "x = (400 * d) div 146097"
  define q4 where "q4 = (x + 3) div 4"
  define q100 where "q100 = (x + 71) div 100"
  define q400 where "q400 = (x + 371) div 400"
  have e: "400 * d < 146097 * x + 146097"
    using div_bounds[of 146097 "400 * d"] by (simp add: x_def)
  have q: "x + 3 < 4 * q4 + 4" "100 * q100 \<le> x + 71" "x + 371 < 400 * q400 + 400"
    using div_bounds[of 4 "x + 3"] div_bounds[of 100 "x + 71"] div_bounds[of 400 "x + 371"]
    by (simp_all add: q4_def q100_def q400_def)
  have "DayFromYear (1970 + x + 2) = 365 * x + 730 + q4 - q100 + q400"
    by (simp add: DayFromYear_def q4_def q100_def q400_def add.commute)
  moreover have "d < 365 * x + 730 + q4 - q100 + q400" using e q by linarith
  ultimately have "d < DayFromYear (1970 + x + 2)" by simp
  then show ?thesis unfolding YearFromDay_def Let_def x_def[symmetric]
    by (simp add: algebra_simps)
qed

lemma YearFromDay_unique:
  assumes "DayFromYear y \<le> d" "d < DayFromYear (y + 1)"
  shows "YearFromDay d = y"
proof (rule ccontr)
  assume ne: "YearFromDay d \<noteq> y"
  show False
  proof (cases "YearFromDay d < y")
    case True
    then have "DayFromYear (YearFromDay d + 1) \<le> DayFromYear y"
      by (intro DayFromYear_mono) simp
    with YearFromDay_upper[of d] assms show False by linarith
  next
    case False
    with ne have "DayFromYear (y + 1) \<le> DayFromYear (YearFromDay d)"
      by (intro DayFromYear_mono) simp
    with YearFromDay_lower[of d] assms show False by linarith
  qed
qed

lemma YearFromDay_ge: "DayFromYear y \<le> d \<Longrightarrow> y \<le> YearFromDay d"
proof (rule ccontr)
  assume a: "DayFromYear y \<le> d" "\<not> y \<le> YearFromDay d"
  then have "DayFromYear (YearFromDay d + 1) \<le> DayFromYear y"
    by (intro DayFromYear_mono) simp
  with YearFromDay_upper[of d] a show False by linarith
qed

lemma YearFromDay_mono: "d \<le> d' \<Longrightarrow> YearFromDay d \<le> YearFromDay d'"
  using YearFromDay_ge[of "YearFromDay d" d'] YearFromDay_lower[of d] by linarith

lemma DayWithinYear_bounds:
  "0 \<le> DayWithinYear t" "DayWithinYear t < DaysInYear (YearFromTime t)"
  using YearFromDay_lower[of "Day t"] YearFromDay_upper[of "Day t"]
    DayFromYear_step[of "YearFromTime t"]
  by (simp_all add: DayWithinYear_def YearFromTime_def)

lemma MonthFromTime_range: "0 \<le> MonthFromTime t \<and> MonthFromTime t \<le> 11"
  by (simp add: MonthFromTime_def Let_def)

lemma DateFromTime_eq:
  "DateFromTime t = DayWithinYear t - monthOffset (MonthFromTime t) (InLeapYear t) + 1"
  by (simp add: DateFromTime_def monthOffset_def Let_def)

lemma MakeDay_roundtrip:
  "MakeDay (YearFromTime t) (MonthFromTime t) (DateFromTime t + k) = Day t + k"
proof -
  have m: "MonthFromTime t div 12 = 0" "MonthFromTime t mod 12 = MonthFromTime t"
    using MonthFromTime_range[of t] by simp_all
  show ?thesis
    unfolding MakeDay_def Let_def m DateFromTime_eq
    by (simp add: InLeapYear_def DayWithinYear_def)
qed
section \<open>Forward fill\<close>

lemma trendRow_of_total:
  "totalProducts_r (trendRow_of trends b) =
     (if items_of trends b = [] then None else Some (totalProducts (last (items_of trends b))))"
  by (simp add: trendRow_of_def items_of_def Let_def last_conv_nth)

lemma forwardFill_length: "length (forwardFill a rs) = length rs"
  by (induction rs arbitrary: a) (auto split: option.splits)

lemma forwardFill_known:
  "i < length rs \<Longrightarrow> totalProducts_r (rs ! i) = Some v \<Longrightarrow>
   totalProducts_r (forwardFill a rs ! i) = Some v"
proof (induction rs arbitrary: a i)
  case Nil
  then show ?case by simp
next
  case (Cons r rs)
  then show ?case by (cases i) (auto split: option.splits)
qed

lemma forwardFill_unknown:
  "i < length rs \<Longrightarrow> \<forall>k\<le>i. totalProducts_r (rs ! k) = None \<Longrightarrow>
   totalProducts_r (forwardFill a rs ! i) = Some (case a of None \<Rightarrow> 0 | Some v \<Rightarrow> v)"
proof (induction rs arbitrary: i)
  case Nil
  then show ?case by simp
next
  case (Cons r rs)
  show ?case
  proof (cases i)
    case 0
    with Cons.prems show ?thesis by (auto split: option.splits)
  next
    case (Suc n)
    have r: "totalProducts_r r = None" using Cons.prems(2) by force
    have "\<forall>k\<le>n. totalProducts_r (rs ! k) = None"
    proof (intro allI impI)
      fix k assume "k \<le> n"
      then have "Suc k \<le> i" using Suc by simp
      with Cons.prems(2) have "totalProducts_r ((r # rs) ! Suc k) = None" by blast
      then show "totalProducts_r (rs ! k) = None" by simp
    qed
    with Cons.IH[of n] Cons.prems(1) Suc r show ?thesis by simp
  qed
qed

lemma forwardFill_inherit:
  "i < length rs \<Longrightarrow> j < i \<Longrightarrow> totalProducts_r (rs ! j) = Some v \<Longrightarrow>
   \<forall>k. j < k \<and> k \<le> i \<longrightarrow> totalProducts_r (rs ! k) = None \<Longrightarrow>
   totalProducts_r (forwardFill a rs ! i) = Some v"
proof (induction rs arbitrary: a i j)
  case Nil
  then show ?case by simp
next
  case (Cons r rs)
  obtain n where i: "i = Suc n" using Cons.prems(2) by (cases i) auto
  show ?case
  proof (cases j)
    case 0
    then have r: "totalProducts_r r = Some v" using Cons.prems(3) by simp
    have "\<forall>k\<le>n. totalProducts_r (rs ! k) = None"
    proof (intro allI impI)
      fix k assume "k \<le> n"
      then have "j < Suc k \<and> Suc k \<le> i" using i 0 by simp
      with Cons.prems(4) have "totalProducts_r ((r # rs) ! Suc k) = None" by blast
      then show "totalProducts_r (rs ! k) = None" by simp
    qed
    then have "totalProducts_r (forwardFill (Some v) rs ! n) = Some v"
      using forwardFill_unknown[of n rs "Some v"] Cons.prems(1) i by simp
    with r i show ?thesis by simp
  next
    case (Suc m)
    have a: "n < length rs" "m < n" "totalProducts_r (rs ! m) = Some v"
      using Cons.prems i Suc by auto
    have b: "\<forall>k. m < k \<and> k \<le> n \<longrightarrow> totalProducts_r (rs ! k) = None"
    proof (intro allI impI)
      fix k assume "m < k \<and> k \<le> n"
      then have "j < Suc k \<and> Suc k \<le> i" using i Suc by simp
      with Cons.prems(4) have "totalProducts_r ((r # rs) ! Suc k) = None" by blast
      then show "totalProducts_r (rs ! k) = None" by simp
    qed
    have "\<And>a'. totalProducts_r (forwardFill a' rs ! n) = Some v"
      using Cons.IH[OF a b] .
    then show ?thesis using i by (auto split: option.splits)
  qed
qed

lemma sorted_last_max:
  assumes "sorted_wrt R xs" "x \<in> set (butlast xs)"
  shows "R x (last xs)"
proof -
  from assms(2) have ne: "xs \<noteq> []" by auto
  then have xs: "xs = butlast xs @ [last xs]" by simp
  have "sorted_wrt R (butlast xs @ [last xs])" using assms(1) xs by simp
  then show ?thesis using assms(2) by (simp add: sorted_wrt_append)
qed

text \<open>
  Claim C2. In the products aggregation, for every bucket list and every record list:
  the output has one row per bucket and no row has a null total; a bucket that contains a
  record keeps the \<open>totalProducts\<close> of the last record in it (for records fetched in ascending
  date order no other record of the bucket is later); a bucket without a record gets the total
  of the nearest preceding bucket that contains a record, and 0 if there is none.
\<close>

theorem forward_fill_totals:
  "length (trendByBucket trends bs) = length bs \<and>
   (\<forall>r \<in> set (trendByBucket trends bs). totalProducts_r r \<noteq> None) \<and>
   (\<forall>i < length bs. items_of trends (bs ! i) \<noteq> [] \<longrightarrow>
      totalProducts_r (trendByBucket trends bs ! i)
        = Some (totalProducts (last (items_of trends (bs ! i))))) \<and>
   (\<forall>i < length bs. \<forall>j < i.
      items_of trends (bs ! i) = [] \<and> items_of trends (bs ! j) \<noteq> [] \<and>
      (\<forall>k. j < k \<and> k < i \<longrightarrow> items_of trends (bs ! k) = []) \<longrightarrow>
      totalProducts_r (trendByBucket trends bs ! i)
        = Some (totalProducts (last (items_of trends (bs ! j))))) \<and>
   (\<forall>i < length bs. (\<forall>k \<le> i. items_of trends (bs ! k) = []) \<longrightarrow>
      totalProducts_r (trendByBucket trends bs ! i) = Some 0) \<and>
   (sorted_wrt (\<lambda>a b. js_le (date a) (date b)) trends \<longrightarrow>
      (\<forall>b \<in> set bs. \<forall>x \<in> set (butlast (items_of trends b)).
          js_le (date x) (date (last (items_of trends b)))))"
proof -
  define raw where "raw = map (trendRow_of trends) bs"
  have out: "trendByBucket trends bs = forwardFill None raw"
    by (simp add: trendByBucket_def raw_def)
  have len: "length raw = length bs" by (simp add: raw_def)
  have raw_nth: "\<And>i. i < length bs \<Longrightarrow> totalProducts_r (raw ! i) =
      (if items_of trends (bs ! i) = [] then None
       else Some (totalProducts (last (items_of trends (bs ! i)))))"
    by (simp add: raw_def trendRow_of_total)
  have c1: "length (trendByBucket trends bs) = length bs"
    by (simp add: out forwardFill_length len)
  have c3: "\<forall>i < length bs. items_of trends (bs ! i) \<noteq> [] \<longrightarrow>
      totalProducts_r (trendByBucket trends bs ! i)
        = Some (totalProducts (last (items_of trends (bs ! i))))"
    using forwardFill_known[of _ raw _ None] raw_nth len by (simp add: out)
  have c4: "\<forall>i < length bs. \<forall>j < i.
      items_of trends (bs ! i) = [] \<and> items_of trends (bs ! j) \<noteq> [] \<and>
      (\<forall>k. j < k \<and> k < i \<longrightarrow> items_of trends (bs ! k) = []) \<longrightarrow>
      totalProducts_r (trendByBucket trends bs ! i)
        = Some (totalProducts (last (items_of trends (bs ! j))))"
  proof (intro allI impI)
    fix i j
    assume i: "i < length bs" and j: "j < i"
      and h: "items_of trends (bs ! i) = [] \<and> items_of trends (bs ! j) \<noteq> [] \<and>
        (\<forall>k. j < k \<and> k < i \<longrightarrow> items_of trends (bs ! k) = [])"
    have a: "totalProducts_r (raw ! j) = Some (totalProducts (last (items_of trends (bs ! j))))"
      using raw_nth[of j] i j h by simp
    have b: "\<forall>k. j < k \<and> k \<le> i \<longrightarrow> totalProducts_r (raw ! k) = None"
    proof (intro allI impI)
      fix k assume k: "j < k \<and> k \<le> i"
      then have "items_of trends (bs ! k) = []" using h by (cases "k = i") auto
      then show "totalProducts_r (raw ! k) = None" using raw_nth[of k] k i by simp
    qed
    show "totalProducts_r (trendByBucket trends bs ! i)
        = Some (totalProducts (last (items_of trends (bs ! j))))"
      unfolding out using forwardFill_inherit[OF _ j a b, of None] i len by simp
  qed
  have c5: "\<forall>i < length bs. (\<forall>k \<le> i. items_of trends (bs ! k) = []) \<longrightarrow>
      totalProducts_r (trendByBucket trends bs ! i) = Some 0"
  proof (intro allI impI)
    fix i assume i: "i < length bs" and h: "\<forall>k \<le> i. items_of trends (bs ! k) = []"
    have "\<forall>k\<le>i. totalProducts_r (raw ! k) = None"
      using raw_nth h i by simp
    then show "totalProducts_r (trendByBucket trends bs ! i) = Some 0"
      unfolding out using forwardFill_unknown[of i raw None] i len by simp
  qed
  have c2: "\<forall>r \<in> set (trendByBucket trends bs). totalProducts_r r \<noteq> None"
  proof
    fix r assume "r \<in> set (trendByBucket trends bs)"
    then obtain i where i: "i < length bs" and r: "r = trendByBucket trends bs ! i"
      using c1 by (auto simp: in_set_conv_nth)
    show "totalProducts_r r \<noteq> None"
    proof (cases "totalProducts_r (raw ! i)")
      case (Some v)
      then show ?thesis using forwardFill_known[of i raw v None] i len r out by simp
    next
      case None
      show ?thesis
      proof (cases "\<forall>k\<le>i. totalProducts_r (raw ! k) = None")
        case True
        then show ?thesis using forwardFill_unknown[of i raw None] i len r out by simp
      next
        case False
        define j where "j = (GREATEST k. k \<le> i \<and> totalProducts_r (raw ! k) \<noteq> None)"
        from False obtain k0 where k0: "k0 \<le> i \<and> totalProducts_r (raw ! k0) \<noteq> None" by blast
        have jp: "j \<le> i \<and> totalProducts_r (raw ! j) \<noteq> None"
          unfolding j_def by (rule GreatestI_nat[of _ k0 i]) (use k0 in auto)
        have jmax: "\<And>k. k \<le> i \<and> totalProducts_r (raw ! k) \<noteq> None \<Longrightarrow> k \<le> j"
          unfolding j_def by (rule Greatest_le_nat[of _ _ i]) auto
        from jp None have ji: "j < i" by (cases "j = i") auto
        from jp obtain v where v: "totalProducts_r (raw ! j) = Some v" by auto
        have gap: "\<forall>k. j < k \<and> k \<le> i \<longrightarrow> totalProducts_r (raw ! k) = None"
          using jmax by force
        show ?thesis using forwardFill_inherit[OF _ ji v gap, of None] i len r out by simp
      qed
    qed
  qed
  have c6: "sorted_wrt (\<lambda>a b. js_le (date a) (date b)) trends \<longrightarrow>
      (\<forall>b \<in> set bs. \<forall>x \<in> set (butlast (items_of trends b)).
          js_le (date x) (date (last (items_of trends b))))"
  proof (intro impI ballI)
    fix b x
    assume s: "sorted_wrt (\<lambda>a b. js_le (date a) (date b)) trends"
      and x: "x \<in> set (butlast (items_of trends b))"
    have "sorted_wrt (\<lambda>a b. js_le (date a) (date b)) (items_of trends b)"
      unfolding items_of_def using s by (rule sorted_wrt_filter)
    then show "js_le (date x) (date (last (items_of trends b)))"
      using x by (rule sorted_last_max)
  qed
  from c1 c2 c3 c4 c5 c6 show ?thesis by blast
qed

theorem forward_fill_totals_witness:
  "items_of ex_trends (ex_buckets ! 1) = [] \<and> items_of ex_trends (ex_buckets ! 0) \<noteq> [] \<and>
   sorted_wrt (\<lambda>a b. js_le (date a) (date b)) ex_trends \<and>
   map totalProducts_r (trendByBucket ex_trends ex_buckets) = [Some 10, Some 10, Some 15]"
proof -
  have i0: "items_of ex_trends (ex_buckets ! 0) = [ex_trends ! 0]"
    and i1: "items_of ex_trends (ex_buckets ! 1) = []"
    and i2: "items_of ex_trends (ex_buckets ! 2) = [ex_trends ! 1]"
    by (simp_all add: items_of_def ex_trends_def ex_buckets_def in_bucket_def js_ge_def)
  have len: "length ex_buckets = 3" by (simp add: ex_buckets_def)
  have v0: "totalProducts (last (items_of ex_trends (ex_buckets ! 0))) = 10"
    unfolding i0 by (simp add: ex_trends_def)
  have v2: "totalProducts (last (items_of ex_trends (ex_buckets ! 2))) = 15"
    unfolding i2 by (simp add: ex_trends_def)
  note t = forward_fill_totals[of ex_trends ex_buckets]
  have l: "length (trendByBucket ex_trends ex_buckets) = 3"
    using t[THEN conjunct1] len by simp
  note known = t[THEN conjunct2, THEN conjunct2, THEN conjunct1, rule_format]
  note inherit = t[THEN conjunct2, THEN conjunct2, THEN conjunct2, THEN conjunct1, rule_format]
  have a0: "totalProducts_r (trendByBucket ex_trends ex_buckets ! 0) = Some 10"
    using known[of 0] i0 len v0 by simp
  have a2: "totalProducts_r (trendByBucket ex_trends ex_buckets ! 2) = Some 15"
    using known[of 2] i2 len v2 by simp
  have "items_of ex_trends (ex_buckets ! 1) = [] \<and> items_of ex_trends (ex_buckets ! 0) \<noteq> [] \<and>
      (\<forall>k. (0::nat) < k \<and> k < 1 \<longrightarrow> items_of ex_trends (ex_buckets ! k) = [])"
    using i0 i1 by auto
  then have a1: "totalProducts_r (trendByBucket ex_trends ex_buckets ! 1) = Some 10"
    using inherit[of 1 0] len v0 by auto
  have s: "sorted_wrt (\<lambda>a b. js_le (date a) (date b)) ex_trends"
    by (simp add: ex_trends_def)
  have "map totalProducts_r (trendByBucket ex_trends ex_buckets) = [Some 10, Some 10, Some 15]"
    using l a0 a1 a2 by (auto simp: list_eq_iff_nth_eq nth_Cons' less_Suc_eq numeral_3_eq_3 numeral_2_eq_2)
  with i0 i1 s show ?thesis by simp
qed
section \<open>Months\<close>

lemma monthDay_eq:
  "monthDay n = DayFromYear (n div 12) + monthOffset (n mod 12) (if DaysInYear (n div 12) = 366 then 1 else 0)"
  by (simp add: monthDay_def MakeDay_def)

lemma MakeDay_monthDay: "MakeDay y m d = monthDay (12 * y + m) + d - 1"
proof -
  have "(12 * y + m) div 12 = y + m div 12" "(12 * y + m) mod 12 = m mod 12"
    by simp_all
  then show ?thesis by (simp add: monthDay_eq MakeDay_def Let_def)
qed

lemma monthDay_year: "monthDay (12 * y) = DayFromYear y"
  by (simp add: monthDay_eq monthOffset_def)

lemma range12:
  "0 \<le> (r::int) \<Longrightarrow> r \<le> 11 \<Longrightarrow>
   r = 0 \<or> r = 1 \<or> r = 2 \<or> r = 3 \<or> r = 4 \<or> r = 5 \<or> r = 6 \<or> r = 7 \<or> r = 8 \<or> r = 9 \<or> r = 10 \<or> r = 11"
  by presburger

lemma mod12_cases:
  "(n::int) mod 12 = 0 \<or> n mod 12 = 1 \<or> n mod 12 = 2 \<or> n mod 12 = 3 \<or> n mod 12 = 4 \<or> n mod 12 = 5
   \<or> n mod 12 = 6 \<or> n mod 12 = 7 \<or> n mod 12 = 8 \<or> n mod 12 = 9 \<or> n mod 12 = 10 \<or> n mod 12 = 11"
  by (rule range12) simp_all

lemma succ_div_mod12:
  "(n::int) mod 12 \<noteq> 11 \<Longrightarrow> (n + 1) div 12 = n div 12 \<and> (n + 1) mod 12 = n mod 12 + 1"
  "(n::int) mod 12 = 11 \<Longrightarrow> (n + 1) div 12 = n div 12 + 1 \<and> (n + 1) mod 12 = 0"
proof -
  have n: "n = 12 * (n div 12) + n mod 12" by simp
  have b: "0 \<le> n mod 12" "n mod 12 < 12" by simp_all
  {
    assume a: "n mod 12 \<noteq> 11"
    have "n + 1 = 12 * (n div 12) + (n mod 12 + 1)" using n by linarith
    moreover have "0 \<le> n mod 12 + 1" "n mod 12 + 1 < 12" using a b by linarith+
    ultimately have "(n + 1) div 12 = n div 12" "(n + 1) mod 12 = n mod 12 + 1"
      using int_div_pos_eq[of "n + 1" 12 "n div 12" "n mod 12 + 1"]
        int_mod_pos_eq[of "n + 1" 12 "n div 12" "n mod 12 + 1"] by simp_all
    then show "(n + 1) div 12 = n div 12 \<and> (n + 1) mod 12 = n mod 12 + 1" by simp
  }
  {
    assume a: "n mod 12 = 11"
    have "n + 1 = 12 * (n div 12) + 12" using n a by linarith
    then have "n + 1 = 12 * (n div 12 + 1) + 0" by (simp add: algebra_simps)
    then have "(n + 1) div 12 = n div 12 + 1" "(n + 1) mod 12 = 0"
      using int_div_pos_eq[of "n + 1" 12 "n div 12 + 1" 0]
        int_mod_pos_eq[of "n + 1" 12 "n div 12 + 1" 0] by simp_all
    then show "(n + 1) div 12 = n div 12 + 1 \<and> (n + 1) mod 12 = 0" by simp
  }
qed

lemma monthDay_step: "monthDay n + 28 \<le> monthDay (n + 1) \<and> monthDay (n + 1) \<le> monthDay n + 31"
proof (cases "n mod 12 = 11")
  case True
  have "DayFromYear (n div 12 + 1) = DayFromYear (n div 12) + DaysInYear (n div 12)"
    by (rule DayFromYear_step)
  then show ?thesis
    using succ_div_mod12(2)[OF True] True DaysInYear_cases[of "n div 12"]
    by (auto simp: monthDay_eq monthOffset_def)
next
  case False
  show ?thesis
    using succ_div_mod12(1)[OF False] False mod12_cases[of n]
    by (auto simp: monthDay_eq monthOffset_def)
qed

lemma monthDay_less: "monthDay n < monthDay (n + 1)"
  using monthDay_step[of n] by linarith

lemma monthDay_mono: "n \<le> m \<Longrightarrow> monthDay n \<le> monthDay m"
proof (induction m rule: int_ge_induct)
  case base
  show ?case by simp
next
  case (step i)
  then show ?case using monthDay_less[of i] by linarith
qed

lemma monthDay_strict: "n < m \<Longrightarrow> monthDay n < monthDay m"
  using monthDay_mono[of "n + 1" m] monthDay_less[of n] by linarith

lemma monthDay_le_iff: "monthDay n \<le> monthDay m \<longleftrightarrow> n \<le> m"
  using monthDay_mono[of n m] monthDay_strict[of m n] by linarith

lemma month_components:
  assumes d: "Day t = monthDay n + k" and k: "0 \<le> k" "monthDay n + k < monthDay (n + 1)"
  shows "YearFromTime t = n div 12" "MonthFromTime t = n mod 12" "DateFromTime t = k + 1"
proof -
  define y where "y = n div 12"
  define r where "r = n mod 12"
  define l :: int where "l = (if DaysInYear y = 366 then 1 else 0)"
  have r: "0 \<le> r" "r \<le> 11" by (simp_all add: r_def)
  have md: "monthDay n = DayFromYear y + monthOffset r l"
    by (simp add: monthDay_eq y_def r_def l_def)
  have off: "0 \<le> monthOffset r l" by (simp add: monthOffset_def l_def)
  have "n + 1 \<le> 12 * (y + 1)"
    using r unfolding r_def y_def by (simp add: algebra_simps)
  then have "monthDay (n + 1) \<le> DayFromYear (y + 1)"
    using monthDay_mono[of "n + 1" "12 * (y + 1)"] monthDay_year[of "y + 1"] by simp
  then have yr: "YearFromDay (Day t) = y"
    using d k md off by (intro YearFromDay_unique) linarith+
  then show Y: "YearFromTime t = n div 12" by (simp add: YearFromTime_def y_def)
  have leap: "InLeapYear t = l" using Y by (simp add: InLeapYear_def l_def y_def)
  have dwy: "DayWithinYear t = monthOffset r l + k"
    using d md Y by (simp add: DayWithinYear_def y_def)
  have nxt: "r \<noteq> 11 \<Longrightarrow> monthOffset r l + k < monthOffset (r + 1) l"
    using succ_div_mod12(1)[of n] k(2) md
    by (simp add: monthDay_eq[of "n + 1"] r_def y_def l_def)
  have l01: "l = 0 \<or> l = 1" by (simp add: l_def)
  have rc: "r = 0 \<or> r = 1 \<or> r = 2 \<or> r = 3 \<or> r = 4 \<or> r = 5 \<or> r = 6 \<or> r = 7 \<or> r = 8 \<or> r = 9 \<or> r = 10 \<or> r = 11"
    using r by (rule range12)
  show M: "MonthFromTime t = n mod 12"
    unfolding MonthFromTime_def Let_def dwy leap r_def[symmetric]
    using rc nxt k(1) l01 by (elim disjE) (simp_all add: monthOffset_def)
  show "DateFromTime t = k + 1"
    unfolding DateFromTime_eq M leap dwy r_def[symmetric] by simp
qed
section \<open>The snapping functions on time values\<close>

lemma msPerDay_pos: "0 < msPerDay"
  by (simp add: msPerDay_def)

lemma maxTime_days: "maxTime = 100000000 * msPerDay"
  by (simp add: maxTime_def msPerDay_def)

lemma Day_decomp: "t = Day t * msPerDay + TimeWithinDay t"
  by (simp add: Day_def TimeWithinDay_def)

lemma TimeWithinDay_bounds: "0 \<le> TimeWithinDay t" "TimeWithinDay t < msPerDay"
  using msPerDay_pos by (simp_all add: TimeWithinDay_def)

lemma Day_of: "0 \<le> r \<Longrightarrow> r < msPerDay \<Longrightarrow> Day (k * msPerDay + r) = k"
  unfolding Day_def using int_div_pos_eq[of "k * msPerDay + r" msPerDay k r]
  by (simp add: mult.commute)

lemma Day_mult [simp]: "Day (k * msPerDay) = k"
  using Day_of[of 0 k] msPerDay_pos by simp

lemma TimeWithinDay_mult [simp]: "TimeWithinDay (k * msPerDay) = 0"
  by (simp add: TimeWithinDay_def)

lemma Day_mono: "s \<le> t \<Longrightarrow> Day s \<le> Day t"
  unfolding Day_def using zdiv_mono1[of s t msPerDay] msPerDay_pos by simp

lemma Day_le: "Day t * msPerDay \<le> t"
  using Day_decomp[of t] TimeWithinDay_bounds(1)[of t] by linarith

lemma Day_gt: "t < Day t * msPerDay + msPerDay"
  using Day_decomp[of t] TimeWithinDay_bounds(2)[of t] by linarith

lemma valid_Day: "valid_time t \<Longrightarrow> valid_time (Day t * msPerDay)"
proof -
  assume v: "valid_time t"
  then have "Day (- 100000000 * msPerDay) \<le> Day t"
    by (intro Day_mono) (simp add: valid_time_def maxTime_days)
  then have "- 100000000 \<le> Day t" by (simp only: Day_mult)
  then have "- 100000000 * msPerDay \<le> Day t * msPerDay"
    using msPerDay_pos by (simp only: mult_le_cancel_right) simp
  then show ?thesis using v Day_le[of t] by (simp add: valid_time_def maxTime_days)
qed

lemma TimeClip_valid: "valid_time t \<Longrightarrow> TimeClip t = Num t"
  by (auto simp: TimeClip_def valid_time_def)

lemma TimeClip_Num: "TimeClip t = Num s \<Longrightarrow> s = t \<and> valid_time t"
  by (auto simp: TimeClip_def valid_time_def split: if_splits)

lemma TimeClip_cases: "TimeClip t = NaN \<or> (TimeClip t = Num t \<and> valid_time t)"
  by (auto simp: TimeClip_def valid_time_def)

lemma new_Date_TimeClip [simp]: "new_Date (TimeClip t) = TimeClip t"
  by (auto simp: TimeClip_def)

lemma startOfDayUTC_NaN [simp]: "startOfDayUTC NaN = NaN"
  by (simp add: startOfDayUTC_def Date_UTC3_def)

lemma endOfDayUTC_NaN [simp]: "endOfDayUTC NaN = NaN"
  by (simp add: endOfDayUTC_def)

lemma startOfDayUTC_Num:
  "startOfDayUTC (Num t) =
     TimeClip (MakeDay (utcYear (YearFromTime t))
                 (MonthFromTime t) (DateFromTime t) * msPerDay)"
  by (simp add: startOfDayUTC_def Date_UTC3_def utcYear_def two_digit_year_def MakeDate_def MakeTime_def)

lemma endOfDayUTC_Num:
  "endOfDayUTC (Num t) =
     TimeClip (MakeDay (utcYear (YearFromTime t))
                 (MonthFromTime t) (DateFromTime t) * msPerDay + 86399999)"
  by (simp add: endOfDayUTC_def utcYear_def two_digit_year_def MakeDate_def MakeTime_def)

lemma MakeDay_same: "MakeDay (YearFromTime t) (MonthFromTime t) (DateFromTime t) = Day t"
  using MakeDay_roundtrip[of t 0] by simp

lemma startOfDayUTC_plain:
  "\<not> two_digit_year (YearFromTime t) \<Longrightarrow> startOfDayUTC (Num t) = TimeClip (Day t * msPerDay)"
  by (simp add: startOfDayUTC_Num MakeDay_same utcYear_def)

lemma endOfDayUTC_plain:
  "\<not> two_digit_year (YearFromTime t) \<Longrightarrow> endOfDayUTC (Num t) = TimeClip (Day t * msPerDay + 86399999)"
  by (simp add: endOfDayUTC_Num MakeDay_same utcYear_def)

lemma setUTCDate_shift:
  "setUTCDate (Num t) (js_add (getUTCDate (Num t)) (Num k)) = TimeClip (t + k * msPerDay)"
proof -
  have "(Day t + k) * msPerDay + TimeWithinDay t = t + k * msPerDay"
    using Day_decomp[of t] by (simp add: algebra_simps)
  then show ?thesis by (simp add: MakeDay_roundtrip MakeDate_def)
qed

lemma setUTCDate_back:
  "setUTCDate (Num t) (js_sub (getUTCDate (Num t)) (Num k)) = TimeClip (t - k * msPerDay)"
proof -
  have "(Day t + (- k)) * msPerDay + TimeWithinDay t = t - k * msPerDay"
    using Day_decomp[of t] by (simp add: algebra_simps)
  then show ?thesis using MakeDay_roundtrip[of t "- k"] by (simp add: MakeDate_def)
qed

lemma addDaysUTC_valid:
  "valid_time t \<Longrightarrow> addDaysUTC (Num t) (Num k) = TimeClip (t + k * msPerDay)"
  by (simp add: addDaysUTC_def TimeClip_valid setUTCDate_shift del: setUTCDate.simps getUTCDate.simps)

lemma TimeClip_invalid: "\<not> valid_time t \<Longrightarrow> TimeClip t = NaN"
  by (auto simp: TimeClip_def valid_time_def)

lemma addDaysUTC_invalid: "\<not> valid_time t \<Longrightarrow> addDaysUTC (Num t) (Num k) = NaN"
  by (simp add: addDaysUTC_def TimeClip_invalid)

lemma addDaysUTC_NaN [simp]: "addDaysUTC NaN k = NaN"
  by (simp add: addDaysUTC_def)
section \<open>Weeks and months\<close>

lemma mondayOf_week: "mondayOf d = 7 * ((d + 3) div 7) - 3"
  unfolding mondayOf_def using mult_div_mod_eq[of 7 "d + 3"] by linarith

lemma mondayOf_le: "mondayOf d \<le> d" "d \<le> mondayOf d + 6"
  unfolding mondayOf_def using pos_mod_sign[of 7 "d + 3"] pos_mod_bound[of 7 "d + 3"] by linarith+

lemma mondayOf_idem [simp]: "mondayOf (mondayOf d) = mondayOf d"
  by (simp add: mondayOf_week[of "mondayOf d"]) (simp add: mondayOf_week)

lemma mondayOf_sunday [simp]: "mondayOf (mondayOf d + 6) = mondayOf d"
  by (simp add: mondayOf_week[of "mondayOf d + 6"]) (simp add: mondayOf_week)

lemma week_day_offset:
  "js_sub (js_or (getUTCDay (Num t)) (Num 7)) (Num 1) = Num ((Day t + 3) mod 7)"
proof -
  define r where "r = (Day t + 3) mod 7"
  have r: "0 \<le> r" "r < 7" by (simp_all add: r_def)
  have e: "(Day t + 4) mod 7 = (r + 1) mod 7"
    using mod_add_left_eq[of "Day t + 3" 7 1] by (simp add: r_def add.commute)
  show ?thesis
  proof (cases "r = 6")
    case True
    then show ?thesis using e by (simp add: js_or_def WeekDay_def r_def[symmetric])
  next
    case False
    then have "(r + 1) mod 7 = r + 1" using r by simp
    then show ?thesis using e r by (simp add: js_or_def WeekDay_def r_def[symmetric])
  qed
qed

lemma startOfISOWeekUTC_NaN [simp]: "startOfISOWeekUTC NaN = NaN"
  by (simp add: startOfISOWeekUTC_def Date_UTC3_def Let_def)

lemma endOfISOWeekUTC_NaN [simp]: "endOfISOWeekUTC NaN = NaN"
  by (simp add: endOfISOWeekUTC_def Let_def)

lemma YearFromTime_day [simp]: "YearFromTime (k * msPerDay) = YearFromDay k"
  by (simp add: YearFromTime_def)

lemma startOfISOWeekUTC_plain:
  assumes "\<not> two_digit_year (YearFromTime t)"
    and "\<not> two_digit_year (YearFromDay (mondayOf (Day t)))"
  shows "startOfISOWeekUTC (Num t) =
          (if valid_time (Day t * msPerDay) then TimeClip (mondayOf (Day t) * msPerDay) else NaN)"
proof -
  have start: "new_Date (Date_UTC3 (getUTCFullYear (Num t)) (getUTCMonth (Num t)) (getUTCDate (Num t)))
      = TimeClip (Day t * msPerDay)"
    using startOfDayUTC_plain[OF assms(1)] by (simp add: startOfDayUTC_def)
  show ?thesis
  proof (cases "valid_time (Day t * msPerDay)")
    case False
    then show ?thesis
      unfolding startOfISOWeekUTC_def Let_def start by (simp add: TimeClip_invalid)
  next
    case True
    have shifted: "setUTCDate (Num (Day t * msPerDay))
        (js_sub (getUTCDate (Num (Day t * msPerDay))) (js_sub (js_or (getUTCDay (Num t)) (Num 7)) (Num 1)))
        = TimeClip (mondayOf (Day t) * msPerDay)"
      unfolding week_day_offset setUTCDate_back by (simp add: mondayOf_def algebra_simps)
    have fin: "startOfDayUTC (TimeClip (mondayOf (Day t) * msPerDay)) = TimeClip (mondayOf (Day t) * msPerDay)"
    proof (cases "valid_time (mondayOf (Day t) * msPerDay)")
      case True
      then show ?thesis using assms(2) by (simp add: TimeClip_valid startOfDayUTC_plain)
    next
      case False
      then show ?thesis by (simp add: TimeClip_invalid)
    qed
    show ?thesis
      unfolding startOfISOWeekUTC_def Let_def start TimeClip_valid[OF True] shifted fin
      using True by simp
  qed
qed

lemma endOfISOWeekUTC_plain:
  assumes "week_plain t"
  shows "endOfISOWeekUTC (Num t) =
          (if valid_time (Day t * msPerDay) \<and> valid_time (mondayOf (Day t) * msPerDay)
              \<and> valid_time ((mondayOf (Day t) + 6) * msPerDay)
           then TimeClip ((mondayOf (Day t) + 6) * msPerDay + 86399999) else NaN)"
proof -
  define M where "M = mondayOf (Day t)"
  have p: "\<not> two_digit_year (YearFromTime t)" "\<not> two_digit_year (YearFromDay M)"
    "\<not> two_digit_year (YearFromDay (M + 6))"
    using assms by (simp_all add: week_plain_def M_def)
  note sow = startOfISOWeekUTC_plain[OF p(1) p(2)[unfolded M_def], folded M_def]
  show ?thesis
  proof (cases "valid_time (Day t * msPerDay) \<and> valid_time (M * msPerDay)")
    case False
    then have "startOfISOWeekUTC (Num t) = NaN" using sow by (auto simp: TimeClip_invalid)
    then show ?thesis using False by (auto simp: endOfISOWeekUTC_def Let_def M_def)
  next
    case True
    then have s: "startOfISOWeekUTC (Num t) = Num (M * msPerDay)"
      using sow by (simp add: TimeClip_valid)
    have e0: "setUTCDate (Num (M * msPerDay)) (js_add (getUTCDate (Num (M * msPerDay))) (Num 6))
        = TimeClip ((M + 6) * msPerDay)"
      unfolding setUTCDate_shift by (simp add: algebra_simps)
    have fin: "endOfDayUTC (TimeClip ((M + 6) * msPerDay)) =
        (if valid_time ((M + 6) * msPerDay) then TimeClip ((M + 6) * msPerDay + 86399999) else NaN)"
      using p(3) by (simp add: TimeClip_valid TimeClip_invalid endOfDayUTC_plain)
    show ?thesis
      unfolding endOfISOWeekUTC_def Let_def s
      using True e0 fin by (simp add: TimeClip_valid M_def del: setUTCDate.simps getUTCDate.simps)
  qed
qed

lemma utcYear_plain: "\<not> two_digit_year (utcYear y)"
  by (simp add: utcYear_def two_digit_year_def)

lemma utcYear_id: "\<not> two_digit_year y \<Longrightarrow> utcYear y = y"
  by (simp add: utcYear_def)

lemma utcYear_ge: "y \<le> utcYear y"
  by (simp add: utcYear_def two_digit_year_def)

lemma month_index:
  "0 \<le> m \<Longrightarrow> m \<le> 11 \<Longrightarrow> (12 * y + m) div 12 = y \<and> (12 * y + m) mod 12 = (m::int)"
  by simp

lemma monthOffset_le_DayWithinYear:
  "monthOffset (MonthFromTime t) (InLeapYear t) \<le> DayWithinYear t"
  using DayWithinYear_bounds(1)[of t]
  by (simp add: MonthFromTime_def monthOffset_def Let_def)

lemma DateFromTime_pos: "1 \<le> DateFromTime t"
  using monthOffset_le_DayWithinYear[of t] by (simp add: DateFromTime_eq)

lemma startOfDayUTC_aligned:
  "\<not> two_digit_year (YearFromDay k) \<Longrightarrow> startOfDayUTC (TimeClip (k * msPerDay)) = TimeClip (k * msPerDay)"
  using TimeClip_cases[of "k * msPerDay"] by (auto simp: startOfDayUTC_plain)

lemma endOfDayUTC_aligned:
  "\<not> two_digit_year (YearFromDay k) \<Longrightarrow>
   endOfDayUTC (TimeClip (k * msPerDay + 86399999)) = TimeClip (k * msPerDay + 86399999)"
proof -
  assume p: "\<not> two_digit_year (YearFromDay k)"
  have d: "Day (k * msPerDay + 86399999) = k" by (rule Day_of) (simp_all add: msPerDay_def)
  have "endOfDayUTC (Num (k * msPerDay + 86399999)) = TimeClip (k * msPerDay + 86399999)"
    using p by (simp add: endOfDayUTC_plain YearFromTime_def d)
  then show ?thesis using TimeClip_cases[of "k * msPerDay + 86399999"] by auto
qed

lemma utcDay_plain:
  "\<not> two_digit_year (YearFromDay (MakeDay (utcYear (YearFromTime t)) (MonthFromTime t) (DateFromTime t)))"
proof (cases "two_digit_year (YearFromTime t)")
  case False
  then show ?thesis by (simp add: utcYear_id MakeDay_same YearFromTime_def[symmetric])
next
  case True
  define y where "y = 1900 + YearFromTime t"
  have y: "100 \<le> y" using True by (simp add: y_def two_digit_year_def)
  have "monthDay (12 * y) \<le> monthDay (12 * y + MonthFromTime t)"
    using MonthFromTime_range[of t] by (intro monthDay_mono) simp
  then have "DayFromYear y \<le> MakeDay y (MonthFromTime t) (DateFromTime t)"
    using DateFromTime_pos[of t] by (simp add: MakeDay_monthDay monthDay_year)
  moreover have "DayFromYear 100 \<le> DayFromYear y" using y by (rule DayFromYear_mono)
  ultimately have "100 \<le> YearFromDay (MakeDay y (MonthFromTime t) (DateFromTime t))"
    by (intro YearFromDay_ge) linarith
  then show ?thesis using True by (simp add: utcYear_def y_def two_digit_year_def)
qed

lemma startOfDayUTC_idem: "startOfDayUTC (startOfDayUTC d) = startOfDayUTC d"
proof (cases d)
  case NaN
  then show ?thesis by simp
next
  case (Num t)
  show ?thesis unfolding Num startOfDayUTC_Num
    by (rule startOfDayUTC_aligned) (rule utcDay_plain)
qed

lemma endOfDayUTC_idem: "endOfDayUTC (endOfDayUTC d) = endOfDayUTC d"
proof (cases d)
  case NaN
  then show ?thesis by simp
next
  case (Num t)
  show ?thesis unfolding Num endOfDayUTC_Num
    by (rule endOfDayUTC_aligned) (rule utcDay_plain)
qed

lemma startOfMonthUTC_NaN [simp]: "startOfMonthUTC NaN = NaN"
  by (simp add: startOfMonthUTC_def Date_UTC3_def)

lemma endOfMonthUTC_NaN [simp]: "endOfMonthUTC NaN = NaN"
  by (simp add: endOfMonthUTC_def Date_UTC3_def)

lemma startOfMonthUTC_Num:
  "startOfMonthUTC (Num t) =
     TimeClip (monthDay (12 * utcYear (YearFromTime t) + MonthFromTime t) * msPerDay)"
  by (simp add: startOfMonthUTC_def Date_UTC3_def utcYear_def two_digit_year_def MakeDate_def
      MakeTime_def MakeDay_monthDay)

lemma month_last_day:
  assumes "Day t = monthDay (n + 1) - 1"
  shows "YearFromTime t = n div 12" "MonthFromTime t = n mod 12"
proof -
  have "Day t = monthDay n + (monthDay (n + 1) - 1 - monthDay n)" using assms by simp
  moreover have "0 \<le> monthDay (n + 1) - 1 - monthDay n" using monthDay_step[of n] by linarith
  moreover have "monthDay n + (monthDay (n + 1) - 1 - monthDay n) < monthDay (n + 1)" by simp
  ultimately show "YearFromTime t = n div 12" "MonthFromTime t = n mod 12"
    using month_components(1,2)[of t n "monthDay (n + 1) - 1 - monthDay n"] by blast+
qed

lemma endOfMonthUTC_Num:
  "endOfMonthUTC (Num t) =
    (if valid_time ((monthDay (12 * utcYear (YearFromTime t) + MonthFromTime t + 1) - 1) * msPerDay)
     then TimeClip ((monthDay (12 * utcYear (YearFromTime t) + MonthFromTime t + 1) - 1) * msPerDay + 86399999)
     else NaN)"
proof -
  define n where "n = 12 * utcYear (YearFromTime t) + MonthFromTime t"
  define L where "L = monthDay (n + 1) - 1"
  have inner: "new_Date (Date_UTC3 (getUTCFullYear (Num t)) (js_add (getUTCMonth (Num t)) (Num 1)) (Num 0))
      = TimeClip (L * msPerDay)"
    by (simp add: Date_UTC3_def utcYear_def two_digit_year_def MakeDate_def MakeTime_def
        MakeDay_monthDay L_def n_def add.assoc)
  have "YearFromTime (L * msPerDay) = n div 12"
    by (rule month_last_day(1)) (simp add: L_def)
  then have "YearFromTime (L * msPerDay) = utcYear (YearFromTime t)"
    using MonthFromTime_range[of t] by (simp add: n_def)
  then have "\<not> two_digit_year (YearFromTime (L * msPerDay))" by (simp add: utcYear_plain)
  then have "endOfDayUTC (Num (L * msPerDay)) = TimeClip (L * msPerDay + 86399999)"
    by (simp add: endOfDayUTC_plain)
  then have "endOfDayUTC (TimeClip (L * msPerDay)) =
      (if valid_time (L * msPerDay) then TimeClip (L * msPerDay + 86399999) else NaN)"
    by (simp add: TimeClip_valid TimeClip_invalid)
  then show ?thesis unfolding endOfMonthUTC_def inner by (simp add: L_def n_def add.assoc)
qed

lemma startOfMonthUTC_idem: "startOfMonthUTC (startOfMonthUTC d) = startOfMonthUTC d"
proof (cases d)
  case NaN
  then show ?thesis by simp
next
  case (Num t)
  define y where "y = utcYear (YearFromTime t)"
  define n where "n = 12 * y + MonthFromTime t"
  have nm: "n div 12 = y" "n mod 12 = MonthFromTime t"
    using MonthFromTime_range[of t] by (simp_all add: n_def)
  have s: "startOfMonthUTC (Num t) = TimeClip (monthDay n * msPerDay)"
    by (simp add: startOfMonthUTC_Num n_def y_def)
  have c: "YearFromTime (monthDay n * msPerDay) = y" "MonthFromTime (monthDay n * msPerDay) = MonthFromTime t"
    using month_components(1,2)[of "monthDay n * msPerDay" n 0] monthDay_less[of n] nm by simp_all
  have "startOfMonthUTC (Num (monthDay n * msPerDay)) = TimeClip (monthDay n * msPerDay)"
    unfolding startOfMonthUTC_Num c using utcYear_plain[of "YearFromTime t"]
    by (simp add: utcYear_id y_def[symmetric] n_def)
  then show ?thesis unfolding Num s using TimeClip_cases[of "monthDay n * msPerDay"] by auto
qed

lemma endOfMonthUTC_idem: "endOfMonthUTC (endOfMonthUTC d) = endOfMonthUTC d"
proof (cases d)
  case NaN
  then show ?thesis by simp
next
  case (Num t)
  define y where "y = utcYear (YearFromTime t)"
  define n where "n = 12 * y + MonthFromTime t"
  define L where "L = monthDay (n + 1) - 1"
  define r where "r = L * msPerDay + 86399999"
  have nm: "n div 12 = y" "n mod 12 = MonthFromTime t"
    using MonthFromTime_range[of t] by (simp_all add: n_def)
  have e: "endOfMonthUTC (Num t) = (if valid_time (L * msPerDay) then TimeClip r else NaN)"
    by (simp add: endOfMonthUTC_Num L_def n_def y_def r_def add.assoc)
  show ?thesis
  proof (cases "valid_time (L * msPerDay) \<and> valid_time r")
    case False
    then show ?thesis unfolding Num e by (auto simp: TimeClip_invalid)
  next
    case True
    have d: "Day r = L" unfolding r_def by (rule Day_of) (simp_all add: msPerDay_def)
    have c: "YearFromTime r = y" "MonthFromTime r = MonthFromTime t"
      using month_last_day[of r n] d nm by (simp_all add: L_def)
    have "endOfMonthUTC (Num r) = (if valid_time (L * msPerDay) then TimeClip r else NaN)"
      unfolding endOfMonthUTC_Num c using utcYear_plain[of "YearFromTime t"]
      by (simp add: utcYear_id y_def[symmetric] n_def[symmetric] L_def r_def add.assoc)
    then show ?thesis unfolding Num e using True by (simp add: TimeClip_valid)
  qed
qed

lemma startOfISOWeekUTC_idem:
  assumes "week_plain t"
  shows "startOfISOWeekUTC (startOfISOWeekUTC (Num t)) = startOfISOWeekUTC (Num t)"
proof -
  define M where "M = mondayOf (Day t)"
  have p: "\<not> two_digit_year (YearFromTime t)" "\<not> two_digit_year (YearFromDay M)"
    using assms by (simp_all add: week_plain_def M_def)
  note sow = startOfISOWeekUTC_plain[OF p(1) p(2)[unfolded M_def], folded M_def]
  show ?thesis
  proof (cases "valid_time (Day t * msPerDay) \<and> valid_time (M * msPerDay)")
    case False
    then have "startOfISOWeekUTC (Num t) = NaN" using sow by (auto simp: TimeClip_invalid)
    then show ?thesis by simp
  next
    case True
    then have s: "startOfISOWeekUTC (Num t) = Num (M * msPerDay)"
      using sow by (simp add: TimeClip_valid)
    have "startOfISOWeekUTC (Num (M * msPerDay)) = Num (M * msPerDay)"
      using startOfISOWeekUTC_plain[of "M * msPerDay"] p(2) True
      by (simp add: M_def TimeClip_valid)
    then show ?thesis by (simp add: s)
  qed
qed

lemma endOfISOWeekUTC_idem:
  assumes "week_plain t"
  shows "endOfISOWeekUTC (endOfISOWeekUTC (Num t)) = endOfISOWeekUTC (Num t)"
proof -
  define M where "M = mondayOf (Day t)"
  define r where "r = (M + 6) * msPerDay + 86399999"
  have p: "\<not> two_digit_year (YearFromDay M)" "\<not> two_digit_year (YearFromDay (M + 6))"
    using assms by (simp_all add: week_plain_def M_def)
  note eow = endOfISOWeekUTC_plain[OF assms, folded M_def, folded r_def]
  show ?thesis
  proof (cases "valid_time (Day t * msPerDay) \<and> valid_time (M * msPerDay)
              \<and> valid_time ((M + 6) * msPerDay) \<and> valid_time r")
    case False
    then have "endOfISOWeekUTC (Num t) = NaN" using eow by (auto simp: TimeClip_invalid)
    then show ?thesis by simp
  next
    case True
    then have e: "endOfISOWeekUTC (Num t) = Num r" using eow by (simp add: TimeClip_valid)
    have d: "Day r = M + 6" unfolding r_def by (rule Day_of) (simp_all add: msPerDay_def)
    have wp: "week_plain r"
      using p by (simp add: week_plain_def d YearFromTime_def M_def)
    have "endOfISOWeekUTC (Num r) = Num r"
      using endOfISOWeekUTC_plain[OF wp, unfolded d] True
      by (simp add: M_def TimeClip_valid r_def)
    then show ?thesis by (simp add: e)
  qed
qed
section \<open>Enumerating the buckets\<close>

lemma edge_less: "edge g k < edge g (k + 1)"
  using monthDay_less[of k] msPerDay_pos by (simp add: edge_def algebra_simps)

lemma edge_mono: "k \<le> l \<Longrightarrow> edge g k \<le> edge g l"
proof (induction l rule: int_ge_induct)
  case base
  show ?case by simp
next
  case (step i)
  then show ?case using edge_less[of g i] by linarith
qed

lemma edge_strict: "k < l \<Longrightarrow> edge g k < edge g l"
  using edge_mono[of "k + 1" l g] edge_less[of g k] by linarith

lemma edge_less_iff: "edge g k < edge g l \<longleftrightarrow> k < l"
  using edge_strict[of k l g] edge_mono[of l k g] by linarith

lemma edge_le_iff: "edge g k \<le> edge g l \<longleftrightarrow> k \<le> l"
  using edge_strict[of l k g] edge_mono[of k l g] by linarith

lemma edge_cover:
  assumes "n \<le> m" "edge g n \<le> t" "t < edge g (m + 1)"
  shows "\<exists>k. n \<le> k \<and> k \<le> m \<and> edge g k \<le> t \<and> t < edge g (k + 1)"
  using assms
proof (induction m rule: int_ge_induct)
  case base
  then show ?case by auto
next
  case (step i)
  show ?case
  proof (cases "t < edge g (i + 1)")
    case True
    with step obtain k where "n \<le> k \<and> k \<le> i \<and> edge g k \<le> t \<and> t < edge g (k + 1)" by blast
    then show ?thesis by (intro exI[of _ k]) simp
  next
    case False
    with step show ?thesis by (intro exI[of _ "i + 1"]) simp
  qed
qed

lemma in_edge_bucket:
  "in_bucket (edge_bucket g k) (Num t) \<longleftrightarrow> edge g k \<le> t \<and> t < edge g (k + 1)"
  by (auto simp: in_bucket_def edge_bucket_def js_ge_def)

lemma upto_nth: "i < length [n..m] \<Longrightarrow> [n..m] ! i = n + int i"
  by simp

lemma tiles_edges:
  assumes nm: "n \<le> m"
  shows "tiles (map (edge_bucket g) [n..m]) (edge g n) (edge g (m + 1) - 1)"
proof -
  let ?bs = "map (edge_bucket g) [n..m]"
  have len: "length ?bs = nat (m - n + 1)" by simp
  have nth: "\<And>i. i < length ?bs \<Longrightarrow> ?bs ! i = edge_bucket g (n + int i)" by simp
  have ne: "?bs \<noteq> []" using nm by simp
  have h: "start (hd ?bs) = Num (edge g n)"
    using nm by (simp add: upto_rec1[of n m] edge_bucket_def)
  have l: "end_b (last ?bs) = Num (edge g (m + 1) - 1)"
    using nm by (simp add: upto_rec2[of n m] edge_bucket_def)
  have c1: "\<forall>i < length ?bs. \<exists>s e. start (?bs ! i) = Num s \<and> end_b (?bs ! i) = Num e \<and> s \<le> e"
    using edge_less[of g] by (simp add: edge_bucket_def less_le_not_le)
  have c2: "\<forall>i. Suc i < length ?bs \<longrightarrow> js_add (end_b (?bs ! i)) (Num 1) = start (?bs ! Suc i)"
    by (simp add: edge_bucket_def algebra_simps)
  have c3: "\<forall>t. (edge g n \<le> t \<and> t \<le> edge g (m + 1) - 1) = (\<exists>i < length ?bs. in_bucket (?bs ! i) (Num t))"
  proof (intro allI iffI)
    fix t assume "edge g n \<le> t \<and> t \<le> edge g (m + 1) - 1"
    then obtain k where k: "n \<le> k" "k \<le> m" "edge g k \<le> t" "t < edge g (k + 1)"
      using edge_cover[OF nm, of g t] by auto
    have "nat (k - n) < length ?bs" using k by simp
    moreover have "in_bucket (?bs ! nat (k - n)) (Num t)"
      using k by (simp add: in_edge_bucket)
    ultimately show "\<exists>i < length ?bs. in_bucket (?bs ! i) (Num t)" by blast
  next
    fix t assume "\<exists>i < length ?bs. in_bucket (?bs ! i) (Num t)"
    then obtain i where i: "i < length ?bs" "in_bucket (?bs ! i) (Num t)" by blast
    then have b: "edge g (n + int i) \<le> t" "t < edge g (n + int i + 1)"
      by (simp_all add: in_edge_bucket)
    have "edge g n \<le> edge g (n + int i)" by (rule edge_mono) simp
    moreover have "edge g (n + int i + 1) \<le> edge g (m + 1)"
      using i(1) by (intro edge_mono) simp
    ultimately show "edge g n \<le> t \<and> t \<le> edge g (m + 1) - 1" using b by linarith
  qed
  have c4: "\<forall>t i j. i < length ?bs \<and> j < length ?bs \<and> in_bucket (?bs ! i) (Num t)
               \<and> in_bucket (?bs ! j) (Num t) \<longrightarrow> i = j"
  proof (intro allI impI)
    fix t i j
    assume a: "i < length ?bs \<and> j < length ?bs \<and> in_bucket (?bs ! i) (Num t)
               \<and> in_bucket (?bs ! j) (Num t)"
    then have ai: "i < length ?bs" "j < length ?bs" "in_bucket (?bs ! i) (Num t)"
      "in_bucket (?bs ! j) (Num t)" by blast+
    then have b: "edge g (n + int i) \<le> t" "t < edge g (n + int i + 1)"
      "edge g (n + int j) \<le> t" "t < edge g (n + int j + 1)"
      by (simp_all add: in_edge_bucket)
    have "edge g (n + int i) < edge g (n + int j + 1)" "edge g (n + int j) < edge g (n + int i + 1)"
      using b by linarith+
    then have "n + int i < n + int j + 1" "n + int j < n + int i + 1"
      by (simp_all only: edge_less_iff)
    then show "i = j" by simp
  qed
  show ?thesis unfolding tiles_def using ne h l c1 c2 c3 c4 by blast
qed

lemma enumerate_edges:
  assumes mk: "\<And>k. n \<le> k \<Longrightarrow> k \<le> m \<Longrightarrow> makeBucket g (Num (edge g k)) = edge_bucket g k"
    and adv: "\<And>k. n \<le> k \<Longrightarrow> k < m \<Longrightarrow> advance g (Num (edge g k)) = Num (edge g (k + 1))"
    and fin: "\<not> js_le (advance g (Num (edge g m))) (Num (edge g (m + 1) - 1))"
    and nm: "n \<le> m"
  shows "enumerate_buckets g (Num (edge g n)) (Num (edge g (m + 1) - 1)) acc
          = Some (acc @ map (edge_bucket g) [n..m])"
  using nm mk adv
proof (induction "nat (m - n)" arbitrary: n acc)
  case 0
  then have nm: "n = m" by simp
  have le: "js_le (Num (edge g m)) (Num (edge g (m + 1) - 1))"
    using edge_less[of g m] by simp
  show ?case
    unfolding nm
    by (subst enumerate_buckets.simps, simp only: le if_True,
        subst enumerate_buckets.simps, simp add: fin "0.prems"(2)[of m, unfolded nm])
next
  case (Suc x)
  then have lt: "n < m" by linarith
  have le: "js_le (Num (edge g n)) (Num (edge g (m + 1) - 1))"
    using edge_strict[of n "m + 1" g] lt by simp
  have ih: "enumerate_buckets g (Num (edge g (n + 1))) (Num (edge g (m + 1) - 1))
      (acc @ [edge_bucket g n])
      = Some ((acc @ [edge_bucket g n]) @ map (edge_bucket g) [n + 1..m])"
  proof (rule Suc.hyps(1))
    show "x = nat (m - (n + 1))" using Suc.hyps(2) by linarith
    show "n + 1 \<le> m" using lt by simp
    show "\<And>k. n + 1 \<le> k \<Longrightarrow> k \<le> m \<Longrightarrow> makeBucket g (Num (edge g k)) = edge_bucket g k"
      using Suc.prems(2) by simp
    show "\<And>k. n + 1 \<le> k \<Longrightarrow> k < m \<Longrightarrow> advance g (Num (edge g k)) = Num (edge g (k + 1))"
      using Suc.prems(3) by simp
  qed
  have up: "[n..m] = n # [n + 1..m]" using lt by (simp add: upto_rec1)
  have step: "enumerate_buckets g (Num (edge g n)) (Num (edge g (m + 1) - 1)) acc
      = enumerate_buckets g (Num (edge g (n + 1))) (Num (edge g (m + 1) - 1)) (acc @ [edge_bucket g n])"
    by (subst enumerate_buckets.simps)
       (simp only: le if_True Suc.prems(3)[OF order_refl lt] Suc.prems(2)[OF order_refl Suc.prems(1)])
  show ?case unfolding step ih up by simp
qed
section \<open>The planner on instants from the year 100 on\<close>

lemma year100_valid: "- maxTime \<le> year100"
  by (simp add: year100_def maxTime_def msPerDay_def DayFromYear_def)

lemma day_from_100: "DayFromYear 100 \<le> k \<Longrightarrow> \<not> two_digit_year (YearFromDay k)"
  using YearFromDay_ge[of 100 k] by (simp add: two_digit_year_def)

lemma Day_from_100: "year100 \<le> t \<Longrightarrow> DayFromYear 100 \<le> Day t"
  using Day_mono[of year100 t] by (simp add: year100_def)

lemma time_from_100: "year100 \<le> t \<Longrightarrow> \<not> two_digit_year (YearFromTime t)"
  unfolding YearFromTime_def by (rule day_from_100) (rule Day_from_100)

lemma year100_mult: "year100 \<le> k * msPerDay \<longleftrightarrow> DayFromYear 100 \<le> k"
  using msPerDay_pos by (simp add: year100_def)

lemma valid_between: "year100 \<le> t \<Longrightarrow> t \<le> maxTime \<Longrightarrow> valid_time t"
  using year100_valid by (simp add: valid_time_def)

lemma month_contains:
  "monthDay (12 * YearFromTime t + MonthFromTime t) \<le> Day t"
  "Day t < monthDay (12 * YearFromTime t + MonthFromTime t + 1)"
proof -
  have i: "(12 * YearFromTime t + MonthFromTime t) div 12 = YearFromTime t"
    "(12 * YearFromTime t + MonthFromTime t) mod 12 = MonthFromTime t"
    using MonthFromTime_range[of t] by simp_all
  have md: "monthDay (12 * YearFromTime t + MonthFromTime t)
      = DayFromYear (YearFromTime t) + monthOffset (MonthFromTime t) (InLeapYear t)"
    unfolding monthDay_eq i InLeapYear_def ..
  show "monthDay (12 * YearFromTime t + MonthFromTime t) \<le> Day t"
    using monthOffset_le_DayWithinYear[of t] unfolding md by (simp add: DayWithinYear_def)
  show "Day t < monthDay (12 * YearFromTime t + MonthFromTime t + 1)"
  proof (cases "MonthFromTime t = 11")
    case True
    have "12 * YearFromTime t + MonthFromTime t + 1 = 12 * (YearFromTime t + 1)"
      using True by simp
    then have "monthDay (12 * YearFromTime t + MonthFromTime t + 1) = DayFromYear (YearFromTime t + 1)"
      by (simp only: monthDay_year)
    then show ?thesis
      using YearFromDay_upper[of "Day t"] by (simp only: YearFromTime_def)
  next
    case False
    have j: "(12 * YearFromTime t + MonthFromTime t + 1) div 12 = YearFromTime t"
      "(12 * YearFromTime t + MonthFromTime t + 1) mod 12 = MonthFromTime t + 1"
      using succ_div_mod12(1)[of "12 * YearFromTime t + MonthFromTime t"] False i by simp_all
    have "DayWithinYear t < monthOffset (MonthFromTime t + 1) (InLeapYear t)"
      using False by (simp add: MonthFromTime_def monthOffset_def Let_def split: if_splits)
    moreover have "monthDay (12 * YearFromTime t + MonthFromTime t + 1)
      = DayFromYear (YearFromTime t) + monthOffset (MonthFromTime t + 1) (InLeapYear t)"
      unfolding monthDay_eq j InLeapYear_def ..
    ultimately show ?thesis by (simp add: DayWithinYear_def)
  qed
qed

lemma edge_index_contains:
  "edge g (edge_index g t) \<le> t" "t < edge g (edge_index g t + 1)"
proof -
  have d: "Day t * msPerDay \<le> t" "t < (Day t + 1) * msPerDay"
    using Day_le[of t] Day_gt[of t] by (simp_all add: algebra_simps)
  have w: "(7 * ((Day t + 3) div 7) - 3) * msPerDay \<le> Day t * msPerDay"
    "(Day t + 1) * msPerDay \<le> (7 * ((Day t + 3) div 7 + 1) - 3) * msPerDay"
    using mondayOf_le[of "Day t"] msPerDay_pos
    by (simp_all add: mondayOf_week mult_le_cancel_right)
  have m: "monthDay (12 * YearFromTime t + MonthFromTime t) * msPerDay \<le> Day t * msPerDay"
    "(Day t + 1) * msPerDay \<le> monthDay (12 * YearFromTime t + MonthFromTime t + 1) * msPerDay"
    using month_contains[of t] msPerDay_pos by (simp_all add: mult_le_cancel_right)
  show "edge g (edge_index g t) \<le> t" "t < edge g (edge_index g t + 1)"
    using d w m by (auto simp: edge_def edge_index_def)
qed

lemma edge_index_edge: "year100 \<le> t \<Longrightarrow> (g = ''week'' \<longrightarrow> DayFromYear 100 \<le> mondayOf (Day t))
    \<Longrightarrow> year100 \<le> edge g (edge_index g t)"
proof -
  assume t: "year100 \<le> t" and w: "g = ''week'' \<longrightarrow> DayFromYear 100 \<le> mondayOf (Day t)"
  have y: "100 \<le> YearFromTime t"
    using YearFromDay_ge[OF Day_from_100[OF t]] by (simp add: YearFromTime_def)
  have "monthDay (12 * 100) \<le> monthDay (12 * YearFromTime t + MonthFromTime t)"
    using y MonthFromTime_range[of t] by (intro monthDay_mono) linarith
  then have m: "DayFromYear 100 \<le> monthDay (12 * YearFromTime t + MonthFromTime t)"
    by (simp only: monthDay_year)
  show ?thesis
    using m w Day_from_100[OF t]
    by (auto simp: edge_def edge_index_def year100_mult mondayOf_week)
qed

lemma snapStart_plain:
  assumes "plain g t"
  shows "snapStart g (Num t) = Num (edge g (edge_index g t))"
proof -
  have t: "valid_time t" "year100 \<le> t" "g = ''week'' \<longrightarrow> DayFromYear 100 \<le> mondayOf (Day t)"
    using assms by (simp_all add: plain_def)
  have p: "\<not> two_digit_year (YearFromTime t)" using t(2) by (rule time_from_100)
  have v: "valid_time (edge g (edge_index g t))"
    using edge_index_edge[OF t(2,3)] edge_index_contains(1)[of g t] t(1) year100_valid
    by (simp add: valid_time_def)
  have "snapStart g (Num t) = TimeClip (edge g (edge_index g t))"
  proof (cases "g = ''month''")
    case True
    then show ?thesis
      using p by (simp add: snapStart_def startOfMonthUTC_Num utcYear_id edge_def edge_index_def)
  next
    case nm: False
    show ?thesis
    proof (cases "g = ''week''")
      case True
      have "\<not> two_digit_year (YearFromDay (mondayOf (Day t)))"
        using t(3) True by (intro day_from_100) simp
      then show ?thesis
        using True p valid_Day[OF t(1)]
        by (simp add: snapStart_def startOfISOWeekUTC_plain edge_def edge_index_def mondayOf_week)
    next
      case False
      then show ?thesis
        using nm p by (simp add: snapStart_def startOfDayUTC_plain edge_def edge_index_def)
    qed
  qed
  then show ?thesis using v by (simp add: TimeClip_valid)
qed

lemma snapEnd_plain:
  assumes "plain g t"
  shows "snapEnd g (Num t) = TimeClip (edge g (edge_index g t + 1) - 1)"
proof -
  have t: "valid_time t" "year100 \<le> t" "g = ''week'' \<longrightarrow> DayFromYear 100 \<le> mondayOf (Day t)"
    using assms by (simp_all add: plain_def)
  have p: "\<not> two_digit_year (YearFromTime t)" using t(2) by (rule time_from_100)
  show ?thesis
  proof (cases "g = ''month''")
    case True
    define L where "L = monthDay (12 * YearFromTime t + MonthFromTime t + 1) - 1"
    have lo: "year100 \<le> L * msPerDay"
    proof -
      have "monthDay (12 * YearFromTime t + MonthFromTime t) \<le> L"
        using monthDay_step[of "12 * YearFromTime t + MonthFromTime t"] by (simp add: L_def)
      moreover have "year100 \<le> monthDay (12 * YearFromTime t + MonthFromTime t) * msPerDay"
        using edge_index_edge[OF t(2), of "''month''"] by (simp add: edge_def edge_index_def)
      moreover have "monthDay (12 * YearFromTime t + MonthFromTime t) * msPerDay
          \<le> L * msPerDay \<longleftrightarrow> monthDay (12 * YearFromTime t + MonthFromTime t) \<le> L"
        using msPerDay_pos by (simp only: mult_le_cancel_right) simp
      ultimately show ?thesis by linarith
    qed
    have "endOfMonthUTC (Num t) = TimeClip (L * msPerDay + 86399999)"
    proof (cases "valid_time (L * msPerDay)")
      case True
      then show ?thesis using p by (simp add: endOfMonthUTC_Num utcYear_id L_def)
    next
      case False
      then have "\<not> valid_time (L * msPerDay + 86399999)"
        using lo year100_valid by (simp add: valid_time_def)
      then show ?thesis using False p
        by (simp add: endOfMonthUTC_Num utcYear_id L_def[symmetric] TimeClip_invalid)
    qed
    moreover have e: "edge g (edge_index g t + 1) - 1 = L * msPerDay + 86399999"
      using True by (simp add: edge_def edge_index_def L_def msPerDay_def algebra_simps)
    ultimately show ?thesis unfolding e using True by (simp add: snapEnd_def)
  next
    case nm: False
    show ?thesis
    proof (cases "g = ''week''")
      case True
      define M where "M = mondayOf (Day t)"
      have M: "DayFromYear 100 \<le> M" "M \<le> Day t" "Day t \<le> M + 6"
        using t(3) True mondayOf_le[of "Day t"] by (simp_all add: M_def)
      have wp: "week_plain t"
        using p M day_from_100[of M] day_from_100[of "M + 6"]
        by (simp add: week_plain_def M_def)
      have v1: "valid_time (Day t * msPerDay)" using t(1) by (rule valid_Day)
      have v2: "valid_time (M * msPerDay)"
      proof -
        have "M * msPerDay \<le> Day t * msPerDay" using M(2) msPerDay_pos by simp
        moreover have "year100 \<le> M * msPerDay" using M(1) by (simp add: year100_mult)
        ultimately show ?thesis using v1 year100_valid by (simp add: valid_time_def)
      qed
      have "endOfISOWeekUTC (Num t) = TimeClip ((M + 6) * msPerDay + 86399999)"
      proof (cases "valid_time ((M + 6) * msPerDay)")
        case True
        then show ?thesis using endOfISOWeekUTC_plain[OF wp] v1 v2 by (simp add: M_def)
      next
        case False
        have "M * msPerDay \<le> (M + 6) * msPerDay" using msPerDay_pos by simp
        then have "\<not> valid_time ((M + 6) * msPerDay + 86399999)"
          using False v2 by (simp add: valid_time_def)
        then show ?thesis using endOfISOWeekUTC_plain[OF wp] False
          by (simp add: M_def[symmetric] TimeClip_invalid)
      qed
      moreover have e: "edge g (edge_index g t + 1) - 1 = (M + 6) * msPerDay + 86399999"
        using True
        by (simp add: edge_def edge_index_def M_def mondayOf_week msPerDay_def algebra_simps)
      ultimately show ?thesis unfolding e using True by (simp add: snapEnd_def)
    next
      case False
      have e: "edge g (edge_index g t + 1) - 1 = Day t * msPerDay + 86399999"
        using False nm by (simp add: edge_def edge_index_def msPerDay_def algebra_simps)
      show ?thesis unfolding e using False nm p by (simp add: snapEnd_def endOfDayUTC_plain)
    qed
  qed
qed

lemma makeBucket_snap: "makeBucket g d = \<lparr>start = snapStart g d, end_b = snapEnd g d\<rparr>"
  by (simp add: makeBucket_def snapStart_def snapEnd_def)

lemma edge_index_edge_id: "edge_index g (edge g k) = k"
proof -
  have "12 * YearFromTime (monthDay k * msPerDay) + MonthFromTime (monthDay k * msPerDay) = k"
    using month_components(1,2)[of "monthDay k * msPerDay" k 0] monthDay_less[of k] by simp
  then show ?thesis by (simp add: edge_index_def edge_def)
qed

lemma plain_edge:
  assumes "year100 \<le> edge g k" "edge g k \<le> maxTime"
  shows "plain g (edge g k)"
proof -
  have "g = ''week'' \<longrightarrow> DayFromYear 100 \<le> mondayOf (Day (edge g k))"
    using assms(1) by (auto simp: edge_def year100_mult mondayOf_week)
  then show ?thesis using assms valid_between by (simp add: plain_def)
qed

lemma makeBucket_edge:
  assumes "year100 \<le> edge g k" "edge g (k + 1) - 1 \<le> maxTime"
  shows "makeBucket g (Num (edge g k)) = edge_bucket g k"
proof -
  have le: "edge g k \<le> maxTime" using edge_less[of g k] assms(2) by linarith
  have "valid_time (edge g (k + 1) - 1)"
    using edge_less[of g k] assms by (intro valid_between) linarith+
  then show ?thesis
    using plain_edge[OF assms(1) le]
    by (simp add: makeBucket_snap snapStart_plain snapEnd_plain edge_index_edge_id
        TimeClip_valid edge_bucket_def)
qed

lemma addMonthsUTC_edge:
  assumes "year100 \<le> monthDay k * msPerDay" "monthDay k * msPerDay \<le> maxTime"
  shows "addMonthsUTC (Num (monthDay k * msPerDay)) (Num 1) = TimeClip (monthDay (k + 1) * msPerDay)"
proof -
  define t where "t = monthDay k * msPerDay"
  have c: "YearFromTime t = k div 12" "MonthFromTime t = k mod 12" "DateFromTime t = 1"
    using month_components[of t k 0] monthDay_less[of k] by (simp_all add: t_def)
  have res: "new_Date (Date_UTC3 (getUTCFullYear (Num t)) (getUTCMonth (Num t)) (getUTCDate (Num t)))
      = Num t"
    using startOfDayUTC_plain[OF time_from_100[OF assms(1)]] valid_between[OF assms]
    by (simp add: startOfDayUTC_def t_def TimeClip_valid)
  have "MakeDay (k div 12) (k mod 12 + 1) 1 = monthDay (k + 1)"
    by (simp add: MakeDay_monthDay add.assoc[symmetric])
  then have "setUTCMonth (Num t) (js_add (getUTCMonth (Num t)) (Num 1)) = TimeClip (monthDay (k + 1) * msPerDay)"
    by (simp add: c MakeDate_def) (simp add: t_def)
  then show ?thesis unfolding addMonthsUTC_def res t_def[symmetric] Let_def .
qed

lemma advance_edge:
  assumes "year100 \<le> edge g k" "edge g k \<le> maxTime"
  shows "advance g (Num (edge g k)) = TimeClip (edge g (k + 1))"
proof (cases "g = ''month''")
  case True
  then show ?thesis using assms addMonthsUTC_edge[of k] by (simp add: advance_def edge_def)
next
  case False
  then show ?thesis
    using addDaysUTC_valid[OF valid_between[OF assms]]
    by (auto simp: advance_def edge_def algebra_simps)
qed

lemma enumerate_plain:
  assumes nm: "n \<le> m" and lo: "year100 \<le> edge g n" and hi: "edge g (m + 1) - 1 \<le> maxTime"
  shows "enumerate_buckets g (Num (edge g n)) (Num (edge g (m + 1) - 1)) []
          = Some (map (edge_bucket g) [n..m])"
proof -
  have lo': "\<And>k. n \<le> k \<Longrightarrow> year100 \<le> edge g k"
    using lo edge_mono[of n _ g] by force
  have hi': "\<And>k. k \<le> m \<Longrightarrow> edge g (k + 1) - 1 \<le> maxTime"
  proof -
    fix k assume "k \<le> m"
    then have "edge g (k + 1) \<le> edge g (m + 1)" by (intro edge_mono) simp
    then show "edge g (k + 1) - 1 \<le> maxTime" using hi by linarith
  qed
  have hi'': "\<And>k. k \<le> m \<Longrightarrow> edge g k \<le> maxTime"
  proof -
    fix k assume "k \<le> m"
    then show "edge g k \<le> maxTime" using hi'[of k] edge_less[of g k] by linarith
  qed
  have mk: "\<And>k. n \<le> k \<Longrightarrow> k \<le> m \<Longrightarrow> makeBucket g (Num (edge g k)) = edge_bucket g k"
    using lo' hi' by (intro makeBucket_edge)
  have adv: "\<And>k. n \<le> k \<Longrightarrow> k < m \<Longrightarrow> advance g (Num (edge g k)) = Num (edge g (k + 1))"
  proof -
    fix k assume k: "n \<le> k" "k < m"
    have "valid_time (edge g (k + 1))"
      using lo'[of "k + 1"] hi''[of "k + 1"] k by (intro valid_between) simp_all
    then show "advance g (Num (edge g k)) = Num (edge g (k + 1))"
      using advance_edge[OF lo'[OF k(1)] hi''[of k]] k by (simp add: TimeClip_valid)
  qed
  have fin: "\<not> js_le (advance g (Num (edge g m))) (Num (edge g (m + 1) - 1))"
    using advance_edge[OF lo'[OF nm] hi''[of m]] TimeClip_cases[of "edge g (m + 1)"] by auto
  show ?thesis using enumerate_edges[OF mk adv fin nm, of "[]"] by simp
qed
section \<open>Parsing the date parameters\<close>

lemma split_on_no_sep: "x \<in> set (split_on c s) \<Longrightarrow> c \<notin> set x"
proof (induction s arbitrary: x)
  case Nil
  then show ?case by simp
next
  case (Cons a s)
  show ?case
  proof (cases "a = c")
    case True
    with Cons show ?thesis by auto
  next
    case False
    with Cons show ?thesis by (cases "split_on c s") auto
  qed
qed

lemma decimal_nonneg: "0 \<le> acc \<Longrightarrow> list_all is_digit s \<Longrightarrow> 0 \<le> decimal acc s"
proof (induction s arbitrary: acc)
  case Nil
  then show ?case by simp
next
  case (Cons c s)
  have "(of_char c :: int) = int (of_char c)" by (simp only: of_nat_of_char)
  then have "0 \<le> digit_val c" using Cons.prems(2) by (simp add: is_digit_def digit_val_def)
  then show ?case using Cons by simp
qed

lemma strip_from_drop: "\<exists>k. strip_from ws s = drop k s"
proof (induction ws s rule: strip_from.induct)
  case (1 ws s)
  show ?case
  proof (cases "find (\<lambda>w. w \<noteq> [] \<and> take (length w) s = w) ws")
    case None
    then have "strip_from ws s = drop 0 s" by (subst strip_from.simps) simp
    then show ?thesis by blast
  next
    case (Some w)
    then obtain k where "strip_from ws (drop (length w) s) = drop k (drop (length w) s)"
      using 1 by blast
    then have "strip_from ws s = drop (k + length w) s"
      using Some by (subst strip_from.simps) (simp add: add.commute)
    then show ?thesis by blast
  qed
qed

lemma set_strip_from: "set (strip_from ws s) \<subseteq> set s"
proof -
  obtain k where "strip_from ws s = drop k s" using strip_from_drop by blast
  then show ?thesis by (simp add: set_drop_subset)
qed

lemma set_trim: "set (trim s) \<subseteq> set s"
  using set_strip_from[of "map rev white_space" "rev (strip_from white_space s)"]
    set_strip_from[of white_space s]
  by (auto simp: trim_def)

lemma strip_from_keeps:
  "c \<in> set s \<Longrightarrow> c \<notin> set (concat ws) \<Longrightarrow> c \<in> set (strip_from ws s)"
proof (induction ws s rule: strip_from.induct)
  case (1 ws s)
  show ?case
  proof (cases "find (\<lambda>w. w \<noteq> [] \<and> take (length w) s = w) ws")
    case None
    then have "strip_from ws s = s" by (subst strip_from.simps) simp
    then show ?thesis using 1 by simp
  next
    case (Some w)
    then have w: "w \<in> set ws" "take (length w) s = w"
      by (auto simp: find_Some_iff)
    have "s = w @ drop (length w) s" using w(2) append_take_drop_id[of "length w" s] by simp
    then have "set s = set w \<union> set (drop (length w) s)" using set_append by metis
    moreover have "c \<notin> set w" using 1(3) w(1) by auto
    ultimately have "c \<in> set (drop (length w) s)" using 1(2) by blast
    then have "c \<in> set (strip_from ws (drop (length w) s))" using 1(1)[OF Some] 1(3) by blast
    then show ?thesis using Some by (subst strip_from.simps) simp
  qed
qed

lemma trim_keeps:
  assumes "c \<in> set s" "c \<notin> set (concat white_space)"
  shows "c \<in> set (trim s)"
proof -
  have 1: "c \<in> set (rev (strip_from white_space s))"
    using strip_from_keeps[OF assms] by simp
  have "c \<notin> set (concat (map rev white_space))" using assms(2) by auto
  then have "c \<in> set (strip_from (map rev white_space) (rev (strip_from white_space s)))"
    using 1 by (intro strip_from_keeps)
  then show ?thesis by (simp add: trim_def)
qed

subsection \<open>Rounding\<close>

lemma bits_mono: "a \<le> b \<Longrightarrow> bits a \<le> bits b"
proof (induction a arbitrary: b rule: bits.induct)
  case (1 n)
  show ?case
  proof (cases "n \<le> 0")
    case True
    have "0 \<le> bits b" for b
    proof (induction b rule: bits.induct)
      case (1 b)
      then show ?case by (subst bits.simps) simp
    qed
    then show ?thesis using True by (subst bits.simps) simp
  next
    case False
    then have b: "\<not> b \<le> 0" using 1(2) by simp
    have "n div 2 \<le> b div 2" using 1(2) by (rule zdiv_mono1) simp
    then have "bits (n div 2) \<le> bits (b div 2)" using 1(1)[OF False] by blast
    then show ?thesis using False b by (subst bits.simps, subst (2) bits.simps) simp
  qed
qed

lemma round_half_even_nonneg: "0 \<le> a \<Longrightarrow> 0 < b \<Longrightarrow> 0 \<le> round_half_even a b"
proof -
  assume "0 \<le> a" "0 < b"
  then have "0 \<le> a div b" by (simp add: pos_imp_zdiv_nonneg_iff)
  then show ?thesis by (simp add: round_half_even_def Let_def)
qed

lemma round_half_even_le:
  assumes "0 < b" "a \<le> b * c"
  shows "round_half_even a b \<le> c"
proof (cases "a div b < c")
  case True
  then show ?thesis by (simp add: round_half_even_def Let_def)
next
  case False
  have "a div b \<le> (b * c) div b" using assms by (intro zdiv_mono1) simp_all
  then have d: "a div b = c" using False assms(1) by simp
  have "a = b * (a div b) + a mod b" by simp
  then have "a mod b \<le> 0" using assms(2) d by simp
  moreover have "0 \<le> a mod b" using assms(1) by simp
  ultimately have "a mod b = 0" by simp
  then show ?thesis using d assms(1) by (simp add: round_half_even_def Let_def)
qed

lemma round_double_nonneg:
  assumes "0 \<le> a" "0 < b" "round_double a b = Fin n p"
  shows "0 \<le> n"
proof (cases "a = 0")
  case True
  then show ?thesis using assms(3) by (simp add: round_double_def)
next
  case False
  define e where "e = (if pow2_le (bits a - bits b) a b then bits a - bits b else bits a - bits b - 1)"
  define q where "q = max e (- 1022) - 52"
  define N where "N = (if 0 \<le> q then round_half_even a (b * 2 ^ nat q)
               else round_half_even (a * 2 ^ nat (- q)) b)"
  have "round_double a b = (if 971 < q \<or> (q = 971 \<and> 2 ^ 53 \<le> N) then FInf True else Fin N q)"
    unfolding round_double_def Let_def e_def[symmetric] q_def[symmetric] N_def[symmetric]
    using False by simp
  then have n: "n = N" using assms(3) by (simp split: if_splits)
  show ?thesis unfolding n N_def using assms(1,2) by (auto intro!: round_half_even_nonneg)
qed

text \<open>A fraction from 0 to 1 is rounded to a double from 0 to 1.\<close>

lemma round_double_unit:
  assumes "0 < a" "a \<le> b"
  shows "\<exists>n p. round_double a b = Fin n p \<and> p < 0 \<and> 0 \<le> n \<and> n \<le> 2 ^ nat (- p)"
proof -
  define e where "e = (if pow2_le (bits a - bits b) a b then bits a - bits b else bits a - bits b - 1)"
  define q where "q = max e (- 1022) - 52"
  have "bits a \<le> bits b" using assms(2) by (rule bits_mono)
  then have "e \<le> 0" by (simp add: e_def)
  then have q: "q < 0" by (simp add: q_def)
  define n where "n = round_half_even (a * 2 ^ nat (- q)) b"
  have b: "0 < b" using assms by simp
  have r: "round_double a b = Fin n q"
    unfolding round_double_def Let_def e_def[symmetric] q_def[symmetric] n_def[symmetric]
    using assms(1) q by simp
  have "a * 2 ^ nat (- q) \<le> b * 2 ^ nat (- q)" using assms(2) by (intro mult_right_mono) simp_all
  then have "n \<le> 2 ^ nat (- q)" unfolding n_def using b by (intro round_half_even_le)
  moreover have "0 \<le> n" unfolding n_def using assms(1) b by (intro round_half_even_nonneg) simp_all
  ultimately show ?thesis using r q by blast
qed

lemma ToInteger_nonneg: "0 \<le> n \<Longrightarrow> ToInteger (Fin n p) = Num k \<Longrightarrow> 0 \<le> k"
  by (auto simp: pos_imp_zdiv_nonneg_iff split: if_splits)

lemma round_signed_ge:
  assumes "0 < b" "- b \<le> a" "ToInteger (round_signed a b) = Num k"
  shows "- 1 \<le> k"
proof (cases "a < 0")
  case False
  then obtain n p where "round_double a b = Fin n p"
    using assms(3) by (cases "round_double a b") (simp_all add: round_signed_def)
  moreover from this have "0 \<le> n" using round_double_nonneg[of a b n p] False assms(1) by simp
  ultimately have "0 \<le> k" using assms(3) False ToInteger_nonneg[of n p k] by (simp add: round_signed_def)
  then show ?thesis by simp
next
  case True
  then obtain n p where r: "round_double (- a) b = Fin n p" "p < 0" "0 \<le> n" "n \<le> 2 ^ nat (- p)"
    using round_double_unit[of "- a" b] assms(2) by auto
  have "n div 2 ^ nat (- p) \<le> (2 ^ nat (- p)) div 2 ^ nat (- p)"
    using r(4) by (intro zdiv_mono1) simp_all
  then have "n div 2 ^ nat (- p) \<le> 1" by simp
  then show ?thesis using assms(3) True r(1,2,3) by (auto simp: round_signed_def split: if_splits)
qed

lemma float_sub_one_ge:
  assumes "0 \<le> n" "ToInteger (float_sub (Fin n p) 1) = Num k"
  shows "- 1 \<le> k"
proof (cases "0 \<le> p")
  case True
  have "0 \<le> n * 2 ^ nat p" using assms(1) by simp
  then have "- 1 \<le> n * 2 ^ nat p - 1" by linarith
  then show ?thesis using assms(2) True round_signed_ge[of 1 "n * 2 ^ nat p - 1" k] by simp
next
  case False
  have "- (2 ^ nat (- p)) \<le> n - 2 ^ nat (- p)" using assms(1) by simp
  then show ?thesis
    using assms(2) False round_signed_ge[of "2 ^ nat (- p)" "n - 2 ^ nat (- p)" k] by simp
qed

subsection \<open>The fields of a date parameter are not negative\<close>

lemma digit_of_nonneg: "digit_of c = Some v \<Longrightarrow> 0 \<le> v"
  by (auto simp: digit_of_def Let_def split: if_splits)

lemma radix_value_nonneg: "0 \<le> acc \<Longrightarrow> 0 \<le> r \<Longrightarrow> radix_value r acc s = Some v \<Longrightarrow> 0 \<le> v"
proof (induction s arbitrary: acc)
  case Nil
  then show ?case by simp
next
  case (Cons c s)
  from Cons.prems(3) obtain d where d: "digit_of c = Some d" "d < r" "radix_value r (acc * r + d) s = Some v"
    by (auto split: option.splits if_splits)
  have "0 \<le> acc * r + d" using Cons.prems(1,2) digit_of_nonneg[OF d(1)] by simp
  then show ?case using Cons.IH[OF _ Cons.prems(2) d(3)] by simp
qed

lemma radix_literal_nonneg: "0 \<le> r \<Longrightarrow> radix_literal r s = Fin n p \<Longrightarrow> 0 \<le> n"
  using radix_value_nonneg[of 0 r s] round_double_nonneg[of _ 1 n p]
  by (auto simp: radix_literal_def split: if_splits option.splits)

lemma decimal_literal_nonneg: "decimal_literal s = Some (a, b) \<Longrightarrow> 0 \<le> a \<and> 0 < b"
proof -
  assume a: "decimal_literal s = Some (a, b)"
  have "list_all is_digit (takeWhile is_digit s @ takeWhile is_digit u)" for u
    by (auto simp: list_all_iff dest: set_takeWhileD)
  then have 1: "0 \<le> decimal 0 (takeWhile is_digit s @ takeWhile is_digit u)" for u
    by (intro decimal_nonneg) simp_all
  have "list_all is_digit (takeWhile is_digit s)"
    by (auto simp: list_all_iff dest: set_takeWhileD)
  then have 2: "0 \<le> decimal 0 (takeWhile is_digit s)"
    by (intro decimal_nonneg) simp_all
  show ?thesis
    using a 1 2 by (auto simp: decimal_literal_def Let_def split: if_splits option.splits)
qed

lemma unsigned_decimal_nonneg: "unsigned_decimal s = Fin n p \<Longrightarrow> 0 \<le> n"
  using decimal_literal_nonneg[of s] round_double_nonneg[of _ _ n p]
  by (auto simp: unsigned_decimal_def split: if_splits option.splits)

lemma Number_js_nonneg:
  assumes "CHR ''-'' \<notin> set s" "Number_js s = Fin n p"
  shows "0 \<le> n"
proof (cases "trim s")
  case Nil
  with assms(2) show ?thesis by (simp add: Number_js_def)
next
  case (Cons c r)
  have "c \<in> set s" using set_trim[of s] Cons by auto
  then have "c \<noteq> CHR ''-''" using assms(1) by auto
  then show ?thesis
    using assms(2) Cons unsigned_decimal_nonneg[of r n p] unsigned_decimal_nonneg[of "c # r" n p]
      radix_literal_nonneg[of 16 "tl r" n p] radix_literal_nonneg[of 8 "tl r" n p]
      radix_literal_nonneg[of 2 "tl r" n p]
    by (auto simp: Number_js_def numeric_literal_def split: if_splits)
qed

subsection \<open>A field with a foreign character is NaN\<close>

lemma numeric_char_simps [simp]:
  "is_digit c \<Longrightarrow> numeric_char c"
  "numeric_char CHR ''.''" "numeric_char CHR ''+''" "numeric_char CHR ''-''"
  "numeric_char CHR ''e''" "numeric_char CHR ''E''" "numeric_char CHR ''x''" "numeric_char CHR ''X''"
  "numeric_char CHR ''o''" "numeric_char CHR ''O''" "numeric_char CHR ''b''" "numeric_char CHR ''B''"
  "numeric_char CHR ''0''"
  by (simp_all add: numeric_char_def is_digit_def)

lemma takeWhile_digits_chars: "c \<in> set (takeWhile is_digit s) \<Longrightarrow> numeric_char c"
  by (auto dest: set_takeWhileD)

lemma digits_value_chars: "digits_value s = Some v \<Longrightarrow> c \<in> set s \<Longrightarrow> numeric_char c"
  by (auto simp: digits_value_def list_all_iff split: if_splits)

lemma signed_integer_chars: "signed_integer s = Some v \<Longrightarrow> c \<in> set s \<Longrightarrow> numeric_char c"
  by (cases s) (auto simp: signed_integer_def dest: digits_value_chars split: if_splits)

lemma exponent_part_chars: "exponent_part s = Some v \<Longrightarrow> c \<in> set s \<Longrightarrow> numeric_char c"
  by (cases s) (auto simp: exponent_part_def dest: signed_integer_chars split: if_splits)

lemma decimal_literal_chars:
  assumes "decimal_literal s = Some ab" "c \<in> set s"
  shows "numeric_char c"
proof -
  define r1 where "r1 = dropWhile is_digit s"
  define dot where "dot = (r1 \<noteq> [] \<and> hd r1 = CHR ''.'')"
  define r2 where "r2 = (if dot then dropWhile is_digit (tl r1) else r1)"
  have s: "s = takeWhile is_digit s @ r1" by (simp add: r1_def)
  obtain ex where ex: "exponent_part r2 = Some ex"
    using assms(1) unfolding decimal_literal_def Let_def r1_def[symmetric] dot_def[symmetric] r2_def[symmetric]
    by (auto split: if_splits option.splits)
  have r1: "numeric_char c" if "c \<in> set r1"
  proof (cases dot)
    case False
    then show ?thesis using that ex exponent_part_chars[of r2 ex c] by (simp add: r2_def)
  next
    case True
    then obtain u where u: "r1 = CHR ''.'' # u" by (cases r1) (auto simp: dot_def)
    have "u = takeWhile is_digit u @ r2" using True u by (simp add: r2_def)
    then have "set u = set (takeWhile is_digit u) \<union> set r2" using set_append by metis
    then show ?thesis
      using that u ex exponent_part_chars[of r2 ex c] takeWhile_digits_chars[of c u] by auto
  qed
  have "set s = set (takeWhile is_digit s) \<union> set r1" using s set_append by metis
  then show ?thesis using assms(2) r1 takeWhile_digits_chars[of c s] by auto
qed

lemma unsigned_decimal_chars:
  assumes "unsigned_decimal s \<noteq> FNaN" "c \<in> set s"
  shows "numeric_char c"
proof (cases "s = ''Infinity''")
  case True
  then show ?thesis using assms(2) by (auto simp: numeric_char_def)
next
  case False
  then obtain ab where "decimal_literal s = Some ab"
    using assms(1) by (auto simp: unsigned_decimal_def split: option.splits)
  then show ?thesis using assms(2) by (rule decimal_literal_chars)
qed

lemma radix_value_chars: "radix_value r acc s = Some v \<Longrightarrow> c \<in> set s \<Longrightarrow> numeric_char c"
proof (induction s arbitrary: acc)
  case Nil
  then show ?case by simp
next
  case (Cons x s)
  from Cons.prems(1) obtain d where d: "digit_of x = Some d" "radix_value r (acc * r + d) s = Some v"
    by (auto split: option.splits if_splits)
  have "numeric_char x" using d(1) by (simp add: numeric_char_def)
  then show ?case using Cons.prems(2) Cons.IH[OF d(2)] by auto
qed

lemma radix_literal_chars: "radix_literal r s \<noteq> FNaN \<Longrightarrow> c \<in> set s \<Longrightarrow> numeric_char c"
  using radix_value_chars[of r 0 s _ c]
  by (auto simp: radix_literal_def split: if_splits option.splits)

lemma negate_NaN [simp]: "negate x = FNaN \<longleftrightarrow> x = FNaN"
  by (cases x) simp_all

lemma numeric_literal_chars:
  assumes "numeric_literal t \<noteq> FNaN" "c \<in> set t"
  shows "numeric_char c"
proof (cases t)
  case Nil
  then show ?thesis using assms by simp
next
  case (Cons x r)
  have tl: "c \<in> set r \<Longrightarrow> c = hd r \<or> c \<in> set (tl r)" by (cases r) auto
  have hd: "r \<noteq> [] \<Longrightarrow> hd r \<in> {CHR ''x'', CHR ''X'', CHR ''o'', CHR ''O'', CHR ''b'', CHR ''B''}
      \<Longrightarrow> numeric_char (hd r)" by auto
  consider (plus) "x = CHR ''+''" "unsigned_decimal r \<noteq> FNaN"
    | (minus) "x = CHR ''-''" "unsigned_decimal r \<noteq> FNaN"
    | (radix) k where "x = CHR ''0''" "r \<noteq> []"
        "hd r \<in> {CHR ''x'', CHR ''X'', CHR ''o'', CHR ''O'', CHR ''b'', CHR ''B''}"
        "radix_literal k (tl r) \<noteq> FNaN"
    | (dec) "unsigned_decimal t \<noteq> FNaN"
    using assms(1) Cons by (auto simp: numeric_literal_def split: if_splits)
  then show ?thesis
  proof cases
    case plus
    then show ?thesis using assms(2) Cons unsigned_decimal_chars[of r c] by auto
  next
    case minus
    then show ?thesis using assms(2) Cons unsigned_decimal_chars[of r c] by auto
  next
    case radix
    then show ?thesis
      using assms(2) Cons tl hd radix_literal_chars[of k "tl r" c] by auto
  next
    case dec
    then show ?thesis using assms(2) by (rule unsigned_decimal_chars)
  qed
qed

lemma Number_js_foreign:
  assumes "c \<in> set s" "\<not> numeric_char c"
  shows "Number_js s = FNaN"
proof (rule ccontr)
  assume n: "Number_js s \<noteq> FNaN"
  have "c \<notin> set (concat white_space)" using assms(2) by (simp add: numeric_char_def)
  then have c: "c \<in> set (trim s)" using assms(1) by (intro trim_keeps)
  then have "trim s \<noteq> []" by auto
  then have "numeric_literal (trim s) \<noteq> FNaN" using n by (simp add: Number_js_def Let_def)
  then show False using c assms(2) numeric_literal_chars by blast
qed

subsection \<open>The parsed date\<close>

lemma field_nonneg:
  assumes "element (map Number_js (split_on CHR ''-'' s)) i = Some (Fin n p)"
  shows "0 \<le> n"
proof -
  from assms have i: "i < length (split_on CHR ''-'' s)"
    and n: "Number_js (split_on CHR ''-'' s ! i) = Fin n p"
    by (auto simp: element_def split: if_splits)
  have "CHR ''-'' \<notin> set (split_on CHR ''-'' s ! i)"
    using i by (intro split_on_no_sep[of _ _ s]) simp
  then show ?thesis using n by (rule Number_js_nonneg)
qed

lemma field_foreign:
  assumes "i < length (split_on CHR ''-'' s)" "c \<in> set (split_on CHR ''-'' s ! i)" "\<not> numeric_char c"
  shows "js_not (element (map Number_js (split_on CHR ''-'' s)) i)"
  using assms Number_js_foreign[OF assms(2,3)] by (simp add: element_def)

lemma Date_UTC_from_99:
  assumes "0 \<le> y" "- 1 \<le> m" "0 \<le> d"
    and "Date_UTC (Num y) (Num m) (Num d) (Num 0) (Num 0) (Num 0) (Num 0) = Num q"
  shows "valid_time q \<and> DayFromYear 99 \<le> Day q"
proof -
  define yr where "yr = (if 0 \<le> y \<and> y \<le> 99 then 1900 + y else y)"
  have yr: "100 \<le> yr" using assms(1) by (simp add: yr_def)
  have q: "TimeClip (MakeDay yr m d * msPerDay) = Num q"
    using assms(4) by (simp add: yr_def MakeDate_def MakeTime_def)
  then have v: "q = MakeDay yr m d * msPerDay" "valid_time q"
    using TimeClip_Num by blast+
  have "monthDay (12 * 99) < monthDay (12 * yr + m)"
    using yr assms(2) by (intro monthDay_strict) linarith
  then have "DayFromYear 99 \<le> MakeDay yr m d"
    using assms(3) monthDay_year[of 99] by (simp add: MakeDay_monthDay)
  then show ?thesis using v by simp
qed

lemma new_Date_Num: "new_Date x = Num q \<Longrightarrow> x = Num q"
  by (cases x) (auto simp: TimeClip_def split: if_splits)

lemma Date_UTC_Num:
  "Date_UTC a b c (Num 0) (Num 0) (Num 0) (Num 0) = Num q \<Longrightarrow> \<exists>y m d. a = Num y \<and> b = Num m \<and> c = Num d"
  by (cases a; cases b; cases c) simp_all

lemma ToInteger_Num: "ToInteger x = Num k \<Longrightarrow> \<exists>n p. x = Fin n p"
  by (cases x) simp_all

lemma float_sub_Num: "ToInteger (float_sub x k) = Num j \<Longrightarrow> \<exists>n p. x = Fin n p"
  by (cases x) simp_all

text \<open>
  No date parameter is parsed to an instant before the year 99: the fields hold no minus
  sign, so the year is at least 0 (from 0 to 99 it means 1900 to 1999), the month index is
  at least -1 and the day at least 0.
\<close>

lemma toUTCDateOnly_from_99:
  assumes "toUTCDateOnly ds = Some (Num q)"
  shows "valid_time q \<and> DayFromYear 99 \<le> Day q"
proof -
  from assms obtain s where s: "ds = Some s" "s \<noteq> []"
    by (cases ds) (auto simp: toUTCDateOnly_def split: if_splits)
  let ?parts = "map Number_js (split_on CHR ''-'' s)"
  have f: "\<not> js_not (element ?parts 0)" "\<not> js_not (element ?parts 1)" "\<not> js_not (element ?parts 2)"
    using assms s by (auto simp: toUTCDateOnly_def Let_def split: if_splits)
  then obtain y m d where ymd: "element ?parts 0 = Some y" "element ?parts 1 = Some m"
    "element ?parts 2 = Some d"
    by (cases "element ?parts 0"; cases "element ?parts 1"; cases "element ?parts 2") auto
  have "new_Date (Date_UTC (ToInteger y) (ToInteger (float_sub m 1)) (ToInteger d)
      (Num 0) (Num 0) (Num 0) (Num 0)) = Num q"
    using assms s f ymd by (simp add: toUTCDateOnly_def Let_def del: Date_UTC.simps new_Date.simps)
  then have u: "Date_UTC (ToInteger y) (ToInteger (float_sub m 1)) (ToInteger d)
      (Num 0) (Num 0) (Num 0) (Num 0) = Num q"
    by (rule new_Date_Num)
  then obtain yi mi di where i: "ToInteger y = Num yi" "ToInteger (float_sub m 1) = Num mi"
    "ToInteger d = Num di" using Date_UTC_Num by blast
  obtain ny py where y: "y = Fin ny py" using i(1) ToInteger_Num by blast
  obtain nm pm where m: "m = Fin nm pm" using i(2) float_sub_Num by blast
  obtain nd pd where d: "d = Fin nd pd" using i(3) ToInteger_Num by blast
  have "0 \<le> yi" using field_nonneg[of s 0 ny py] ymd(1) y i(1) ToInteger_nonneg by blast
  moreover have "- 1 \<le> mi" using field_nonneg[of s 1 nm pm] ymd(2) m i(2) float_sub_one_ge by blast
  moreover have "0 \<le> di" using field_nonneg[of s 2 nd pd] ymd(3) d i(3) ToInteger_nonneg by blast
  ultimately show ?thesis using u unfolding i by (intro Date_UTC_from_99)
qed

lemma toUTCDateOnly_year:
  assumes "toUTCDateOnly ds = Some (Num q)"
  shows "valid_time q" "0 \<le> YearFromTime q"
proof -
  show "valid_time q" using toUTCDateOnly_from_99[OF assms] by simp
  have "99 \<le> YearFromDay (Day q)"
    using toUTCDateOnly_from_99[OF assms] by (intro YearFromDay_ge) simp
  then show "0 \<le> YearFromTime q" by (simp add: YearFromTime_def)
qed

lemma split_on_nonempty: "split_on c s \<noteq> []"
  by (induction s) (auto split: list.splits)

lemma split_on_append: "split_on c (s @ c # t) = split_on c s @ split_on c t"
proof (induction s)
  case Nil
  show ?case by simp
next
  case (Cons x s)
  then show ?case using split_on_nonempty[of c s] by (cases "split_on c s") auto
qed

lemma new_Date_Date_UTC3: "new_Date (Date_UTC3 a b c) = Date_UTC3 a b c"
  by (cases a; cases b; cases c) (simp_all add: Date_UTC3_def Let_def)

section \<open>Termination of the enumeration\<close>

lemma addDaysUTC_increases:
  assumes "0 < k" "addDaysUTC (Num t) (Num k) = Num t'"
  shows "t < t'"
proof (cases "valid_time t")
  case True
  then have "TimeClip (t + k * msPerDay) = Num t'" using assms(2) by (simp add: addDaysUTC_valid)
  then have "t' = t + k * msPerDay" using TimeClip_Num by blast
  then show ?thesis using assms(1) msPerDay_pos by simp
next
  case False
  then show ?thesis using assms(2) by (simp add: addDaysUTC_invalid)
qed

lemma setUTCMonth_next:
  "setUTCMonth (Num r) (js_add (getUTCMonth (Num r)) (Num 1)) =
     TimeClip ((Day r + (monthDay (12 * YearFromTime r + MonthFromTime r + 1)
                          - monthDay (12 * YearFromTime r + MonthFromTime r))) * msPerDay
               + TimeWithinDay r)"
proof -
  have "MakeDay (YearFromTime r) (MonthFromTime r) (DateFromTime r) = Day r" by (rule MakeDay_same)
  then have "DateFromTime r = Day r - monthDay (12 * YearFromTime r + MonthFromTime r) + 1"
    by (simp add: MakeDay_monthDay)
  then have "MakeDay (YearFromTime r) (MonthFromTime r + 1) (DateFromTime r)
      = Day r + (monthDay (12 * YearFromTime r + MonthFromTime r + 1)
                 - monthDay (12 * YearFromTime r + MonthFromTime r))"
    by (simp add: MakeDay_monthDay add.assoc[symmetric])
  then show ?thesis by (simp add: MakeDate_def)
qed

lemma addMonthsUTC_increases:
  assumes "addMonthsUTC (Num t) (Num 1) = Num t'"
  shows "t < t'"
proof -
  define K where "K = MakeDay (utcYear (YearFromTime t)) (MonthFromTime t) (DateFromTime t)"
  have res: "new_Date (Date_UTC3 (getUTCFullYear (Num t)) (getUTCMonth (Num t)) (getUTCDate (Num t)))
      = TimeClip (K * msPerDay)"
    using startOfDayUTC_Num[of t] by (simp add: startOfDayUTC_def K_def)
  have "monthDay (12 * YearFromTime t + MonthFromTime t)
      \<le> monthDay (12 * utcYear (YearFromTime t) + MonthFromTime t)"
    using utcYear_ge[of "YearFromTime t"] by (intro monthDay_mono) simp
  then have K: "Day t \<le> K"
    using MakeDay_same[of t] by (simp add: K_def MakeDay_monthDay)
  show ?thesis
  proof (cases "valid_time (K * msPerDay)")
    case False
    then show ?thesis using assms unfolding addMonthsUTC_def res Let_def
      by (simp add: TimeClip_invalid)
  next
    case True
    define r where "r = K * msPerDay"
    have "setUTCMonth (Num r) (js_add (getUTCMonth (Num r)) (Num 1)) = Num t'"
      using assms True unfolding addMonthsUTC_def res Let_def r_def by (simp only: TimeClip_valid)
    then have "TimeClip ((Day r + (monthDay (12 * YearFromTime r + MonthFromTime r + 1)
                          - monthDay (12 * YearFromTime r + MonthFromTime r))) * msPerDay
               + TimeWithinDay r) = Num t'"
      by (simp only: setUTCMonth_next)
    then have t': "t' = (K + (monthDay (12 * YearFromTime r + MonthFromTime r + 1)
                          - monthDay (12 * YearFromTime r + MonthFromTime r))) * msPerDay"
      using TimeClip_Num[of _ t'] by (simp add: r_def)
    have "Day t + 1 \<le> K + (monthDay (12 * YearFromTime r + MonthFromTime r + 1)
                          - monthDay (12 * YearFromTime r + MonthFromTime r))"
      using K monthDay_step[of "12 * YearFromTime r + MonthFromTime r"] by linarith
    then have "(Day t + 1) * msPerDay \<le> t'"
      unfolding t' using msPerDay_pos by (simp only: mult_le_cancel_right) simp
    then show ?thesis using Day_gt[of t] by (simp add: algebra_simps)
  qed
qed

lemma advance_increases: "advance g (Num t) = Num t' \<Longrightarrow> t < t'"
  using addMonthsUTC_increases[of t t'] addDaysUTC_increases[of 7 t t'] addDaysUTC_increases[of 1 t t']
  by (auto simp: advance_def split: if_splits)

lemma enumerate_buckets_total: "\<exists>bs. enumerate_buckets g c rEnd acc = Some bs"
proof (cases "js_le c rEnd")
  case False
  then show ?thesis by (subst enumerate_buckets.simps) simp
next
  case True
  then obtain t b where tb: "c = Num t" "rEnd = Num b" "t \<le> b"
    by (cases c; cases rEnd) auto
  have "\<And>t acc. \<exists>bs. enumerate_buckets g (Num t) (Num b) acc = Some bs"
  proof -
    fix t acc
    show "\<exists>bs. enumerate_buckets g (Num t) (Num b) acc = Some bs"
    proof (induction "nat (b - t + 1)" arbitrary: t acc rule: less_induct)
      case less
      show ?case
      proof (cases "t \<le> b")
        case False
        then show ?thesis by (subst enumerate_buckets.simps) simp
      next
        case le: True
        show ?thesis
        proof (cases "advance g (Num t)")
          case NaN
          show ?thesis
            by (subst enumerate_buckets.simps, simp add: le NaN, subst enumerate_buckets.simps, simp)
        next
          case (Num t')
          then have "t < t'" by (rule advance_increases)
          then have "nat (b - t' + 1) < nat (b - t + 1)" using le by linarith
          then obtain bs where "enumerate_buckets g (Num t') (Num b) (acc @ [makeBucket g (Num t)]) = Some bs"
            using less(1)[of t' "acc @ [makeBucket g (Num t)]"] by blast
          then show ?thesis
            by (subst enumerate_buckets.simps) (simp add: le Num)
        qed
      qed
    qed
  qed
  then show ?thesis using tb by simp
qed

lemma buildBuckets_total: "\<exists>r. buildBuckets now sd ed g = Some r"
proof -
  obtain bs where "enumerate_buckets g
      (new_Date (snapStart g (case toUTCDateOnly sd of
          None \<Rightarrow> defaultStart g (case toUTCDateOnly ed of None \<Rightarrow> startOfDayUTC now | Some e \<Rightarrow> e)
        | Some s \<Rightarrow> s)))
      (snapEnd g (case toUTCDateOnly ed of None \<Rightarrow> startOfDayUTC now | Some e \<Rightarrow> e)) [] = Some bs"
    using enumerate_buckets_total by blast
  then show ?thesis by (simp add: buildBuckets_def Let_def)
qed

lemma buildBuckets_ranges:
  assumes "buildBuckets now sd ed g = Some r"
  shows "rangeEnd r = snapEnd g (case toUTCDateOnly ed of None \<Rightarrow> startOfDayUTC now | Some e \<Rightarrow> e)"
    and "rangeStart r = snapStart g (case toUTCDateOnly sd of
          None \<Rightarrow> defaultStart g (case toUTCDateOnly ed of None \<Rightarrow> startOfDayUTC now | Some e \<Rightarrow> e)
        | Some s \<Rightarrow> s)"
    and "enumerate_buckets g (new_Date (rangeStart r)) (rangeEnd r) [] = Some (buckets r)"
  using assms by (auto simp: buildBuckets_def Let_def split: option.splits)
section \<open>Idempotence of the snapping functions\<close>

text \<open>
  Claim C7, as stated, fails for the two week functions: \<^verbatim>\<open>Date.UTC\<close> reads a year from 0 to 99
  as 1900 + year. The instant 0050-01-01T00:00:00Z (a Saturday) is snapped to 1949-12-27
  (the date 0049-12-27 moved to 1949, a Tuesday there), and snapping that again gives
  1949-12-26.
\<close>

theorem startOfISOWeekUTC_not_idempotent:
  "startOfISOWeekUTC (startOfISOWeekUTC (Num (- 60589296000000)))
     \<noteq> startOfISOWeekUTC (Num (- 60589296000000))"
  by code_simp

text \<open>
  Claim C7, amended. For every Date \<open>d\<close> (Invalid Date included), \<open>startOfDayUTC\<close>,
  \<open>endOfDayUTC\<close>, \<open>startOfMonthUTC\<close> and \<open>endOfMonthUTC\<close> are idempotent; \<open>startOfISOWeekUTC\<close> and
  \<open>endOfISOWeekUTC\<close> are idempotent on Invalid Date and on every instant that lies, together
  with the Monday and the Sunday of its ISO week, outside the years 0 to 99.
\<close>

theorem snapping_idempotent:
  "startOfDayUTC (startOfDayUTC d) = startOfDayUTC d \<and>
   endOfDayUTC (endOfDayUTC d) = endOfDayUTC d \<and>
   startOfMonthUTC (startOfMonthUTC d) = startOfMonthUTC d \<and>
   endOfMonthUTC (endOfMonthUTC d) = endOfMonthUTC d \<and>
   ((\<forall>t. d = Num t \<longrightarrow> week_plain t) \<longrightarrow>
      startOfISOWeekUTC (startOfISOWeekUTC d) = startOfISOWeekUTC d \<and>
      endOfISOWeekUTC (endOfISOWeekUTC d) = endOfISOWeekUTC d)"
proof -
  have "(\<forall>t. d = Num t \<longrightarrow> week_plain t) \<longrightarrow>
      startOfISOWeekUTC (startOfISOWeekUTC d) = startOfISOWeekUTC d \<and>
      endOfISOWeekUTC (endOfISOWeekUTC d) = endOfISOWeekUTC d"
    by (cases d) (simp_all add: startOfISOWeekUTC_idem endOfISOWeekUTC_idem)
  then show ?thesis
    using startOfDayUTC_idem[of d] endOfDayUTC_idem[of d] startOfMonthUTC_idem[of d]
      endOfMonthUTC_idem[of d] by blast
qed

text \<open>The amended claim at 2025-09-03T00:00:00Z, a Wednesday: its week starts on 2025-09-01.\<close>

theorem snapping_idempotent_witness:
  "week_plain 1756857600000 \<and>
   startOfISOWeekUTC (Num 1756857600000) = Num 1756684800000 \<and>
   startOfISOWeekUTC (Num 1756684800000) = Num 1756684800000 \<and>
   endOfISOWeekUTC (Num 1756857600000) = Num 1757289599999 \<and>
   endOfISOWeekUTC (Num 1757289599999) = Num 1757289599999"
proof -
  have wp: "week_plain 1756857600000" by code_simp
  have s: "startOfISOWeekUTC (Num 1756857600000) = Num 1756684800000" by code_simp
  have e: "endOfISOWeekUTC (Num 1756857600000) = Num 1757289599999" by code_simp
  show ?thesis using snapping_idempotent[of "Num 1756857600000"] wp s e by simp
qed
section \<open>Totality, malformed dates and reversed ranges\<close>

text \<open>
  Claim C9. \<open>buildBuckets\<close> returns for every \<open>now\<close>, every pair of date parameters (absent,
  malformed or well-formed) and every granularity string, and every step of the loop moves
  the cursor strictly forward (or to Invalid Date, which ends the loop).
\<close>

theorem buildBuckets_terminates:
  "(\<exists>r. buildBuckets now sd ed g = Some r) \<and>
   (\<forall>t t'. advance g (Num t) = Num t' \<longrightarrow> t < t')"
  using buildBuckets_total[of now sd ed g] advance_increases[of g] by blast

theorem buildBuckets_terminates_witness:
  "advance ''month'' (Num 1756684800000) = Num 1759276800000 \<and>
   (1756684800000::int) < 1759276800000 \<and>
   (\<exists>r. buildBuckets (Num 1762102800000) (Some ''yesterday'') None ''month'' = Some r)"
proof -
  have a: "advance ''month'' (Num 1756684800000) = Num 1759276800000" by code_simp
  show ?thesis
    using buildBuckets_terminates[of "Num 1762102800000" "Some ''yesterday''" None "''month''"] a
    by simp
qed

text \<open>
  Claim C4, as stated, fails: \<open>toUTCDateOnly\<close> checks only that the first three fields are
  non-zero numbers. For \<^verbatim>\<open>2025-13-45\<close> (month 13, day 45) it returns a Date, 2026-02-14.
\<close>

theorem toUTCDateOnly_accepts_month_13:
  "toUTCDateOnly (Some ''2025-13-45'') = Some (Num 1771027200000) \<and>
   fmt (Num 1771027200000) = ''2026-02-14''"
  by code_simp

text \<open>
  Claim C4, amended. \<open>toUTCDateOnly\<close> returns null exactly when the parameter is absent or
  empty or one of its first three fields (split at \<^verbatim>\<open>-\<close>) is missing or converts to 0 or NaN;
  so it returns null whenever one of these fields holds a character that occurs in no numeric
  literal, such as the \<^verbatim>\<open>T\<close> or the \<^verbatim>\<open>:\<close> of a time component. Otherwise it returns the Date
  that \<^verbatim>\<open>Date.UTC\<close> builds from the three numbers, truncated to integers, where a month or day
  out of range rolls over; fields after the third are ignored. A parameter for which it
  returns null is treated by \<open>buildBuckets\<close> exactly as an absent one.
\<close>

theorem toUTCDateOnly_null:
  "(toUTCDateOnly ds = None \<longleftrightarrow>
      (case ds of None \<Rightarrow> True
       | Some s \<Rightarrow> s = [] \<or> (\<exists>i<3. js_not (element (map Number_js (split_on CHR ''-'' s)) i)))) \<and>
   (\<forall>i c. i < 3 \<and> i < length (split_on CHR ''-'' s) \<and> c \<in> set (split_on CHR ''-'' s ! i) \<and>
      \<not> numeric_char c \<longrightarrow> toUTCDateOnly (Some s) = None) \<and>
   \<not> numeric_char CHR ''T'' \<and> \<not> numeric_char CHR '':'' \<and>
   (toUTCDateOnly ds \<noteq> None \<longrightarrow>
      (\<exists>s y m d. ds = Some s \<and>
         element (map Number_js (split_on CHR ''-'' s)) 0 = Some y \<and>
         element (map Number_js (split_on CHR ''-'' s)) 1 = Some m \<and>
         element (map Number_js (split_on CHR ''-'' s)) 2 = Some d \<and>
         toUTCDateOnly ds = Some (Date_UTC3 (ToInteger y) (ToInteger (float_sub m 1)) (ToInteger d)))) \<and>
   (3 \<le> length (split_on CHR ''-'' s) \<longrightarrow>
      toUTCDateOnly (Some (s @ CHR ''-'' # t)) = toUTCDateOnly (Some s)) \<and>
   (toUTCDateOnly sd = None \<longrightarrow>
      buildBuckets now sd ed g = buildBuckets now None ed g) \<and>
   (toUTCDateOnly ed = None \<longrightarrow>
      buildBuckets now sd ed g = buildBuckets now sd None g)"
proof -
  have three: "\<And>P. (\<exists>i<3. P i) \<longleftrightarrow> P (0::nat) \<or> P 1 \<or> P 2"
    by (auto simp: numeral_3_eq_3 numeral_2_eq_2 less_Suc_eq)
  have a: "toUTCDateOnly ds = None \<longleftrightarrow>
      (case ds of None \<Rightarrow> True
       | Some s \<Rightarrow> s = [] \<or> (\<exists>i<3. js_not (element (map Number_js (split_on CHR ''-'' s)) i)))" for ds
    unfolding three by (simp add: toUTCDateOnly_def Let_def split: option.splits)
  have f: "\<forall>i c. i < 3 \<and> i < length (split_on CHR ''-'' s) \<and> c \<in> set (split_on CHR ''-'' s ! i) \<and>
      \<not> numeric_char c \<longrightarrow> toUTCDateOnly (Some s) = None"
    using field_foreign[of _ s] unfolding a[of "Some s"] by auto
  have tc: "\<not> numeric_char CHR ''T''" "\<not> numeric_char CHR '':''"
    by (simp_all add: numeric_char_def is_digit_def digit_of_def white_space_def)
  have b: "toUTCDateOnly ds \<noteq> None \<longrightarrow>
      (\<exists>s y m d. ds = Some s \<and>
         element (map Number_js (split_on CHR ''-'' s)) 0 = Some y \<and>
         element (map Number_js (split_on CHR ''-'' s)) 1 = Some m \<and>
         element (map Number_js (split_on CHR ''-'' s)) 2 = Some d \<and>
         toUTCDateOnly ds = Some (Date_UTC3 (ToInteger y) (ToInteger (float_sub m 1)) (ToInteger d)))"
  proof
    assume n: "toUTCDateOnly ds \<noteq> None"
    then obtain s where s: "ds = Some s" "s \<noteq> []"
      by (cases ds) (auto simp: toUTCDateOnly_def split: if_splits)
    let ?parts = "map Number_js (split_on CHR ''-'' s)"
    have f: "\<not> js_not (element ?parts 0)" "\<not> js_not (element ?parts 1)" "\<not> js_not (element ?parts 2)"
      using n s by (auto simp: toUTCDateOnly_def Let_def split: if_splits)
    then obtain y m d where ymd: "element ?parts 0 = Some y" "element ?parts 1 = Some m"
      "element ?parts 2 = Some d"
      by (cases "element ?parts 0"; cases "element ?parts 1"; cases "element ?parts 2") auto
    have "toUTCDateOnly ds = Some (Date_UTC3 (ToInteger y) (ToInteger (float_sub m 1)) (ToInteger d))"
      using s f ymd new_Date_Date_UTC3[of "ToInteger y" "ToInteger (float_sub m 1)" "ToInteger d"]
      by (simp add: toUTCDateOnly_def Let_def Date_UTC3_def del: Date_UTC.simps new_Date.simps)
    then show "\<exists>s y m d. ds = Some s \<and>
         element (map Number_js (split_on CHR ''-'' s)) 0 = Some y \<and>
         element (map Number_js (split_on CHR ''-'' s)) 1 = Some m \<and>
         element (map Number_js (split_on CHR ''-'' s)) 2 = Some d \<and>
         toUTCDateOnly ds = Some (Date_UTC3 (ToInteger y) (ToInteger (float_sub m 1)) (ToInteger d))"
      using s ymd by blast
  qed
  have e: "3 \<le> length (split_on CHR ''-'' s) \<longrightarrow>
      toUTCDateOnly (Some (s @ CHR ''-'' # t)) = toUTCDateOnly (Some s)"
  proof
    assume l: "3 \<le> length (split_on CHR ''-'' s)"
    then have "s \<noteq> []" by auto
    moreover have "element (map Number_js (split_on CHR ''-'' (s @ CHR ''-'' # t))) i
        = element (map Number_js (split_on CHR ''-'' s)) i" if "i < 3" for i
      using that l by (simp add: split_on_append element_def nth_append)
    then have "element (map Number_js (split_on CHR ''-'' (s @ CHR ''-'' # t))) 0
        = element (map Number_js (split_on CHR ''-'' s)) 0"
      "element (map Number_js (split_on CHR ''-'' (s @ CHR ''-'' # t))) 1
        = element (map Number_js (split_on CHR ''-'' s)) 1"
      "element (map Number_js (split_on CHR ''-'' (s @ CHR ''-'' # t))) 2
        = element (map Number_js (split_on CHR ''-'' s)) 2"
      by simp_all
    ultimately show "toUTCDateOnly (Some (s @ CHR ''-'' # t)) = toUTCDateOnly (Some s)"
      by (simp add: toUTCDateOnly_def Let_def)
  qed
  have n: "toUTCDateOnly None = None" by (simp add: toUTCDateOnly_def)
  have c: "toUTCDateOnly sd = None \<longrightarrow>
      buildBuckets now sd ed g = buildBuckets now None ed g"
    by (simp add: buildBuckets_def n)
  have d: "toUTCDateOnly ed = None \<longrightarrow>
      buildBuckets now sd ed g = buildBuckets now sd None g"
    by (simp add: buildBuckets_def n)
  from a[of ds] f tc b e c d show ?thesis by blast
qed

text \<open>
  The amended claim at a date with a time component, at a well-formed date and at a date
  followed by a fourth field.
\<close>

theorem toUTCDateOnly_null_witness:
  "CHR ''T'' \<in> set (split_on CHR ''-'' ''2025-09-01T00:00:00'' ! 2) \<and>
   toUTCDateOnly (Some ''2025-09-01T00:00:00'') = None \<and>
   buildBuckets (Num 1762102800000) (Some ''2025-09-01T00:00:00'') None ''day''
     = buildBuckets (Num 1762102800000) None None ''day'' \<and>
   toUTCDateOnly (Some ''2025-09-01'') = Some (Num 1756684800000) \<and>
   toUTCDateOnly (Some ''2025-09-01-12'') = Some (Num 1756684800000)"
proof -
  note time = toUTCDateOnly_null[where ds = "Some ''2025-09-01T00:00:00''"
      and s = "''2025-09-01T00:00:00''" and sd = "Some ''2025-09-01T00:00:00''"
      and now = "Num 1762102800000" and ed = None and g = "''day''"]
  note more = toUTCDateOnly_null[where s = "''2025-09-01''" and t = "''12''"]
  have l: "(2::nat) < 3" "2 < length (split_on CHR ''-'' ''2025-09-01T00:00:00'')"
    "CHR ''T'' \<in> set (split_on CHR ''-'' ''2025-09-01T00:00:00'' ! 2)"
    by simp_all
  have a: "toUTCDateOnly (Some ''2025-09-01T00:00:00'') = None"
    using time l by blast
  have b: "buildBuckets (Num 1762102800000) (Some ''2025-09-01T00:00:00'') None ''day''
     = buildBuckets (Num 1762102800000) None None ''day''"
    using time a by blast
  have c: "toUTCDateOnly (Some ''2025-09-01'') = Some (Num 1756684800000)"
    by code_simp
  have "3 \<le> length (split_on CHR ''-'' ''2025-09-01'')" by simp
  then have "toUTCDateOnly (Some (''2025-09-01'' @ CHR ''-'' # ''12'')) = toUTCDateOnly (Some ''2025-09-01'')"
    using more by blast
  then have d: "toUTCDateOnly (Some ''2025-09-01-12'') = Some (Num 1756684800000)"
    using c by simp
  show ?thesis using l(3) a b c d by blast
qed

text \<open>
  Claim C10. When both dates are supplied and the snapped end precedes the snapped start,
  \<open>buildBuckets\<close> returns the two boundaries and an empty bucket list, and each handler, when its
  storage queries succeed, answers with a normal body whose bucket sequence is empty.
\<close>

theorem reversed_range_is_empty:
  assumes "toUTCDateOnly (startDate_q q) = Some s0" and "toUTCDateOnly (endDate_q q) = Some e0"
    and "g = (case bucket_q q of None \<Rightarrow> ''day'' | Some x \<Rightarrow> x)"
    and "snapStart g s0 = Num a" and "snapEnd g e0 = Num b" and "b < a"
  shows "buildBuckets now (startDate_q q) (endDate_q q) g
           = Some \<lparr>rangeStart = Num a, rangeEnd = Num b, buckets = []\<rparr> \<and>
         (\<forall>trends n. findTrends (Num a) (Num b) = Some trends \<and> count = Some n \<longrightarrow>
            getDashboardProductsHandler now findTrends count q
              = Some (Json \<lparr>currentTotal = n, trend = []\<rparr>)) \<and>
         (\<forall>logs. findLogs (Num a) (Num b) = Some logs \<longrightarrow>
            getDashboardVisitorsHandler now findLogs q
              = Some (Json \<lparr>totalVisitors = int (length logs), visitorsByBucket = []\<rparr>))"
proof -
  have "\<not> js_le (new_Date (Num a)) (Num b)"
    using assms(6) TimeClip_cases[of a] by auto
  then have "enumerate_buckets g (new_Date (Num a)) (Num b) [] = Some []"
    by (subst enumerate_buckets.simps) simp
  then have p: "buildBuckets now (startDate_q q) (endDate_q q) g
           = Some \<lparr>rangeStart = Num a, rangeEnd = Num b, buckets = []\<rparr>"
    using assms(1,2,4,5) by (simp add: buildBuckets_def Let_def)
  have h1: "\<forall>trends n. findTrends (Num a) (Num b) = Some trends \<and> count = Some n \<longrightarrow>
            getDashboardProductsHandler now findTrends count q
              = Some (Json \<lparr>currentTotal = n, trend = []\<rparr>)"
    using p assms(3) by (simp add: getDashboardProductsHandler_def Let_def trendByBucket_def)
  have h2: "\<forall>logs. findLogs (Num a) (Num b) = Some logs \<longrightarrow>
            getDashboardVisitorsHandler now findLogs q
              = Some (Json \<lparr>totalVisitors = int (length logs), visitorsByBucket = []\<rparr>)"
    using p assms(3) by (simp add: getDashboardVisitorsHandler_def Let_def)
  from p h1 h2 show ?thesis by blast
qed

theorem reversed_range_is_empty_witness:
  "toUTCDateOnly (startDate_q ex_reversed) = Some (Num 1757462400000) \<and>
   toUTCDateOnly (endDate_q ex_reversed) = Some (Num 1756684800000) \<and>
   snapStart ''day'' (Num 1757462400000) = Num 1757462400000 \<and>
   snapEnd ''day'' (Num 1756684800000) = Num 1756771199999 \<and>
   (1756771199999::int) < 1757462400000 \<and>
   getDashboardProductsHandler (Num 1762102800000) (\<lambda>a b. Some ex_trends) (Some 128) ex_reversed
     = Some (Json \<lparr>currentTotal = 128, trend = []\<rparr>) \<and>
   getDashboardVisitorsHandler (Num 1762102800000) (\<lambda>a b. Some []) ex_reversed
     = Some (Json \<lparr>totalVisitors = 0, visitorsByBucket = []\<rparr>)"
proof -
  have s: "toUTCDateOnly (startDate_q ex_reversed) = Some (Num 1757462400000)"
    unfolding ex_reversed_def by code_simp
  have e: "toUTCDateOnly (endDate_q ex_reversed) = Some (Num 1756684800000)"
    unfolding ex_reversed_def by code_simp
  have g: "''day'' = (case bucket_q ex_reversed of None \<Rightarrow> ''day'' | Some x \<Rightarrow> x)"
    by (simp add: ex_reversed_def)
  have a: "snapStart ''day'' (Num 1757462400000) = Num 1757462400000" by code_simp
  have b: "snapEnd ''day'' (Num 1756684800000) = Num 1756771199999" by code_simp
  have lt: "(1756771199999::int) < 1757462400000" by simp
  note t = reversed_range_is_empty[OF s e g a b lt,
      of "Num 1762102800000" "\<lambda>a b. Some ex_trends" "Some 128" "\<lambda>a b. Some []"]
  show ?thesis using t s e a b by simp
qed

section \<open>The plan for dates in effect from the year 100 on\<close>

lemma buildBuckets_effective:
  assumes "buildBuckets now sd ed g = Some r"
  shows "rangeStart r = snapStart g (effectiveStart now sd ed g)"
    and "rangeEnd r = snapEnd g (effectiveEnd now ed)"
    and "enumerate_buckets g (new_Date (rangeStart r)) (rangeEnd r) [] = Some (buckets r)"
  unfolding effectiveStart_def effectiveEnd_def
  using buildBuckets_ranges[OF assms] by blast+

text \<open>A range between two bucket edges, from the year 100 on, is tiled.\<close>

lemma plan_edges:
  assumes b: "buildBuckets now sd ed g = Some r"
    and r: "rangeStart r = Num (edge g n)" "rangeEnd r = Num (edge g (m + 1) - 1)"
    and lo: "year100 \<le> edge g n" and hi: "edge g (m + 1) - 1 \<le> maxTime"
    and le: "edge g n \<le> edge g (m + 1) - 1"
  shows "n \<le> m" "buckets r = map (edge_bucket g) [n..m]"
    "tiles (buckets r) (edge g n) (edge g (m + 1) - 1)"
proof -
  note eff = buildBuckets_effective[OF b]
  have "edge g n < edge g (m + 1)" using le by linarith
  then show nm: "n \<le> m" by (simp add: edge_less_iff)
  have "valid_time (edge g n)" using lo hi le by (intro valid_between) linarith+
  then have c: "new_Date (rangeStart r) = Num (edge g n)"
    using r(1) by (simp add: TimeClip_valid)
  show bs: "buckets r = map (edge_bucket g) [n..m]"
    using eff(3) enumerate_plain[OF nm lo hi] unfolding c r(2) by simp
  show "tiles (buckets r) (edge g n) (edge g (m + 1) - 1)"
    unfolding bs using nm by (rule tiles_edges)
qed

lemma plan_plain:
  assumes b: "buildBuckets now sd ed g = Some r"
    and p: "effectiveStart now sd ed g = Num p" "plain g p"
    and e: "effectiveEnd now ed = Num e" "plain g e"
    and r: "rangeStart r = Num a" "rangeEnd r = Num b" "a \<le> b"
  shows "a = edge g (edge_index g p)" "b = edge g (edge_index g e + 1) - 1"
    "edge_index g p \<le> edge_index g e"
    "buckets r = map (edge_bucket g) [edge_index g p..edge_index g e]"
    "tiles (buckets r) a b"
proof -
  note eff = buildBuckets_effective[OF b]
  show a: "a = edge g (edge_index g p)"
    using eff(1) p r(1) by (simp add: snapStart_plain)
  have "TimeClip (edge g (edge_index g e + 1) - 1) = Num b"
    using eff(2) e r(2) by (simp add: snapEnd_plain)
  then have bv: "b = edge g (edge_index g e + 1) - 1" "valid_time b"
    using TimeClip_Num by blast+
  show "b = edge g (edge_index g e + 1) - 1" by (rule bv(1))
  have lo: "year100 \<le> edge g (edge_index g p)"
    using p(2) by (intro edge_index_edge) (simp_all add: plain_def)
  have hi: "edge g (edge_index g e + 1) - 1 \<le> maxTime"
    using bv by (simp add: valid_time_def)
  note pe = plan_edges[OF b r(1,2)[unfolded a bv(1)] lo hi r(3)[unfolded a bv(1)]]
  show "edge_index g p \<le> edge_index g e" by (rule pe(1))
  show "buckets r = map (edge_bucket g) [edge_index g p..edge_index g e]" by (rule pe(2))
  show "tiles (buckets r) a b" unfolding a bv(1) by (rule pe(3))
qed

text \<open>
  Day and month snapping of an instant of the year 0 or later gives a bucket edge from the
  year 100 on: a year from 0 to 99 is moved to 1900 to 1999.
\<close>

lemma snapStart_edge_from_0:
  assumes g: "g \<noteq> ''week''" and y: "0 \<le> YearFromTime t" and s: "snapStart g (Num t) = Num a"
  shows "\<exists>n. a = edge g n \<and> year100 \<le> a"
proof -
  have u: "100 \<le> utcYear (YearFromTime t)" using y by (simp add: utcYear_def two_digit_year_def)
  show ?thesis
  proof (cases "g = ''month''")
    case True
    define n where "n = 12 * utcYear (YearFromTime t) + MonthFromTime t"
    have "TimeClip (monthDay n * msPerDay) = Num a"
      using s True by (simp add: snapStart_def startOfMonthUTC_Num n_def)
    then have a: "a = monthDay n * msPerDay" using TimeClip_Num by blast
    have "monthDay (12 * 100) \<le> monthDay n"
      using u MonthFromTime_range[of t] by (intro monthDay_mono) (simp add: n_def)
    then have "DayFromYear 100 \<le> monthDay n" using monthDay_year[of 100] by simp
    then have "year100 \<le> a" unfolding a year100_mult .
    moreover have "a = edge g n" using a True by (simp add: edge_def)
    ultimately show ?thesis by blast
  next
    case False
    define K where "K = MakeDay (utcYear (YearFromTime t)) (MonthFromTime t) (DateFromTime t)"
    have "TimeClip (K * msPerDay) = Num a"
      using s False g by (simp add: snapStart_def startOfDayUTC_Num K_def)
    then have a: "a = K * msPerDay" using TimeClip_Num by blast
    have "monthDay (12 * 100) \<le> monthDay (12 * utcYear (YearFromTime t) + MonthFromTime t)"
      using u MonthFromTime_range[of t] by (intro monthDay_mono) simp
    then have "DayFromYear 100 \<le> K"
      using DateFromTime_pos[of t] monthDay_year[of 100] by (simp add: K_def MakeDay_monthDay)
    then have "year100 \<le> a" unfolding a year100_mult .
    moreover have "a = edge g K" using a False g by (simp add: edge_def)
    ultimately show ?thesis by blast
  qed
qed

lemma snapEnd_edge:
  assumes g: "g \<noteq> ''week''" and s: "snapEnd g (Num t) = Num b"
  shows "\<exists>m. b = edge g (m + 1) - 1 \<and> b \<le> maxTime"
proof (cases "g = ''month''")
  case True
  define n where "n = 12 * utcYear (YearFromTime t) + MonthFromTime t"
  have "TimeClip ((monthDay (n + 1) - 1) * msPerDay + 86399999) = Num b"
    using s True by (simp add: snapEnd_def endOfMonthUTC_Num n_def split: if_splits)
  then have b: "b = (monthDay (n + 1) - 1) * msPerDay + 86399999" "valid_time b"
    using TimeClip_Num by blast+
  have "b = edge g (n + 1) - 1" using b(1) True by (simp add: edge_def msPerDay_def algebra_simps)
  then show ?thesis using b(2) by (auto simp: valid_time_def)
next
  case False
  define K where "K = MakeDay (utcYear (YearFromTime t)) (MonthFromTime t) (DateFromTime t)"
  have "TimeClip (K * msPerDay + 86399999) = Num b"
    using s False g by (simp add: snapEnd_def endOfDayUTC_Num K_def)
  then have b: "b = K * msPerDay + 86399999" "valid_time b"
    using TimeClip_Num by blast+
  have "b = edge g (K + 1) - 1" using b(1) False g by (simp add: edge_def msPerDay_def algebra_simps)
  then show ?thesis using b(2) by (auto simp: valid_time_def)
qed

lemma plain_week:
  assumes v: "valid_time t" and m: "DayFromYear 100 \<le> mondayOf (Day t)"
  shows "plain g t"
proof -
  have "DayFromYear 100 \<le> Day t" using m mondayOf_le(1)[of "Day t"] by linarith
  then have "DayFromYear 100 * msPerDay \<le> Day t * msPerDay"
    using msPerDay_pos by (intro mult_right_mono) simp_all
  then have "year100 \<le> t" using Day_le[of t] by (simp add: year100_def)
  then show "plain g t" using v m by (simp add: plain_def)
qed

section \<open>The buckets tile the range\<close>

text \<open>
  Claim C1, as stated, fails for weeks at the start of the year 100. The start date
  0100-01-02 (a Saturday) is snapped through \<^verbatim>\<open>Date.UTC(99, 11, 28)\<close> to 1999-12-28, a Tuesday;
  with the end date 2000-01-10 the snapped start precedes the snapped end, but the first
  bucket starts on Monday 1999-12-27, one day before \<open>rangeStart\<close>.
\<close>

theorem week_buckets_leave_range:
  "buildBuckets (Num 1762102800000) (Some ''100-01-02'') (Some ''2000-01-10'') ''week''
     = Some \<lparr>rangeStart = Num 946339200000, rangeEnd = Num 948067199999,
             buckets = [\<lparr>start = Num 946252800000, end_b = Num 946857599999\<rparr>,
                        \<lparr>start = Num 946857600000, end_b = Num 947462399999\<rparr>,
                        \<lparr>start = Num 947462400000, end_b = Num 948067199999\<rparr>]\<rparr> \<and>
   (946339200000::int) \<le> 948067199999 \<and>
   \<not> tiles [\<lparr>start = Num 946252800000, end_b = Num 946857599999\<rparr>,
             \<lparr>start = Num 946857600000, end_b = Num 947462399999\<rparr>,
             \<lparr>start = Num 947462400000, end_b = Num 948067199999\<rparr>] 946339200000 948067199999"
proof -
  have "buildBuckets (Num 1762102800000) (Some ''100-01-02'') (Some ''2000-01-10'') ''week''
     = Some \<lparr>rangeStart = Num 946339200000, rangeEnd = Num 948067199999,
             buckets = [\<lparr>start = Num 946252800000, end_b = Num 946857599999\<rparr>,
                        \<lparr>start = Num 946857600000, end_b = Num 947462399999\<rparr>,
                        \<lparr>start = Num 947462400000, end_b = Num 948067199999\<rparr>]\<rparr>"
    by code_simp
  then show ?thesis by (simp add: tiles_def)
qed

text \<open>
  Claim C1, amended. For every granularity string and every pair of supplied dates (parsed
  by \<open>toUTCDateOnly\<close> to valid Dates) whose snapped start is at most the snapped end, where
  for week granularity both dates lie in ISO weeks that start in the year 100 or later (on or
  after Monday 0100-01-04), the bucket list is a non-empty ordered sequence of contiguous,
  non-overlapping buckets (each end plus one millisecond is the next start) whose union is
  exactly the closed interval from the snapped \<open>rangeStart\<close> to the snapped \<open>rangeEnd\<close>.
  For day and month granularity this holds for every pair of supplied dates: no date is
  parsed to an instant before the year 99, and the snapping moves the year 99 to 1999.
\<close>

theorem buckets_tile_range:
  assumes "toUTCDateOnly sd = Some (Num p)" and "toUTCDateOnly ed = Some (Num e)"
    and "g = ''week'' \<longrightarrow> DayFromYear 100 \<le> mondayOf (Day p) \<and> DayFromYear 100 \<le> mondayOf (Day e)"
    and "buildBuckets now sd ed g = Some r"
    and "rangeStart r = Num a" and "rangeEnd r = Num b" and "a \<le> b"
  shows "tiles (buckets r) a b"
proof (cases "g = ''week''")
  case True
  have ps: "effectiveStart now sd ed g = Num p" "plain g p"
    using assms(1,3) True toUTCDateOnly_year(1)[OF assms(1)] plain_week[of p g]
    by (simp_all add: effectiveStart_def)
  have pe: "effectiveEnd now ed = Num e" "plain g e"
    using assms(2,3) True toUTCDateOnly_year(1)[OF assms(2)] plain_week[of e g]
    by (simp_all add: effectiveEnd_def)
  show ?thesis by (rule plan_plain(5)[OF assms(4) ps pe assms(5-7)])
next
  case False
  note eff = buildBuckets_effective[OF assms(4)]
  have "snapStart g (Num p) = Num a" using eff(1) assms(1,5) by (simp add: effectiveStart_def)
  then obtain n where n: "a = edge g n" "year100 \<le> a"
    using snapStart_edge_from_0[OF False toUTCDateOnly_year(2)[OF assms(1)]] by blast
  have "snapEnd g (Num e) = Num b" using eff(2) assms(2,6) by (simp add: effectiveEnd_def)
  then obtain m where m: "b = edge g (m + 1) - 1" "b \<le> maxTime"
    using snapEnd_edge[OF False] by blast
  show ?thesis
    using plan_edges(3)[OF assms(4) assms(5,6)[unfolded n(1) m(1)]] n(2) m(2) assms(7)
    unfolding n(1) m(1) by blast
qed

text \<open>The amended claim for 2025-09-01 to 2025-09-03 by day: three buckets.\<close>

theorem buckets_tile_range_witness:
  "toUTCDateOnly (Some ''2025-09-01'') = Some (Num 1756684800000) \<and>
   toUTCDateOnly (Some ''2025-09-03'') = Some (Num 1756857600000) \<and>
   buildBuckets (Num 1762102800000) (Some ''2025-09-01'') (Some ''2025-09-03'') ''day''
     = Some \<lparr>rangeStart = Num 1756684800000, rangeEnd = Num 1756943999999, buckets = ex_buckets\<rparr> \<and>
   (1756684800000::int) \<le> 1756943999999 \<and>
   tiles ex_buckets 1756684800000 1756943999999"
proof -
  have s: "toUTCDateOnly (Some ''2025-09-01'') = Some (Num 1756684800000)" by code_simp
  have e: "toUTCDateOnly (Some ''2025-09-03'') = Some (Num 1756857600000)" by code_simp
  have b: "buildBuckets (Num 1762102800000) (Some ''2025-09-01'') (Some ''2025-09-03'') ''day''
     = Some \<lparr>rangeStart = Num 1756684800000, rangeEnd = Num 1756943999999, buckets = ex_buckets\<rparr>"
    unfolding ex_buckets_def by code_simp
  have "tiles (buckets \<lparr>rangeStart = Num 1756684800000, rangeEnd = Num 1756943999999,
      buckets = ex_buckets\<rparr>) 1756684800000 1756943999999"
    by (rule buckets_tile_range[OF s e _ b]) simp_all
  then show ?thesis using s e b by simp
qed
section \<open>Sums over the buckets\<close>

lemma foldl_plus: "foldl (\<lambda>s it. s + f it) a xs = a + sum_list (map f xs)"
  by (induction xs arbitrary: a) (simp_all add: add.assoc)

lemma or0_id [simp]: "or0 n = n"
  by (simp add: or0_def)

lemma trendRow_of_sums:
  "productsAdded_r (trendRow_of trends b) = sum_list (map productsAdded (items_of trends b))"
  "productsRemoved_r (trendRow_of trends b) = sum_list (map productsRemoved (items_of trends b))"
  by (simp_all add: trendRow_of_def items_of_def Let_def foldl_plus)

lemma forwardFill_keeps:
  "map productsAdded_r (forwardFill a rs) = map productsAdded_r rs"
  "map productsRemoved_r (forwardFill a rs) = map productsRemoved_r rs"
  by (induction rs arbitrary: a) (auto split: option.splits)

lemma visitorRow_of_count:
  "visitors (visitorRow_of logs b)
     = sum_list (map (\<lambda>l. if in_bucket b (visitedAt l) then 1 else 0) logs)"
  by (simp add: visitorRow_of_def foldl_plus)

lemma sum_list_single:
  "i < length xs \<Longrightarrow> (\<forall>j < length xs. j \<noteq> i \<longrightarrow> f (xs ! j) = 0) \<Longrightarrow>
   sum_list (map f xs) = (f (xs ! i) :: int)"
proof (induction xs arbitrary: i)
  case Nil
  then show ?case by simp
next
  case (Cons x xs)
  show ?case
  proof (cases i)
    case 0
    have "\<forall>y \<in> set xs. f y = 0"
    proof
      fix y assume "y \<in> set xs"
      then obtain j where "j < length xs" "xs ! j = y" by (auto simp: in_set_conv_nth)
      then show "f y = 0" using Cons.prems(2)[rule_format, of "Suc j"] 0 by simp
    qed
    then have "sum_list (map f xs) = 0" by (simp add: sum_list_0 cong: map_cong)
    then show ?thesis using 0 by simp
  next
    case (Suc n)
    have "f x = 0" using Cons.prems(2)[rule_format, of 0] Suc by simp
    moreover have "sum_list (map f xs) = f (xs ! n)"
    proof (rule Cons.IH)
      show "n < length xs" using Cons.prems(1) Suc by simp
      show "\<forall>j<length xs. j \<noteq> n \<longrightarrow> f (xs ! j) = 0"
        using Cons.prems(2)[rule_format, of "Suc _"] Suc by simp
    qed
    ultimately show ?thesis using Suc by simp
  qed
qed

lemma tiles_once:
  assumes t: "tiles bs a b" and x: "a \<le> x" "x \<le> b"
  shows "sum_list (map (\<lambda>k. if in_bucket k (Num x) then c else 0) bs) = (c::int)"
    and "\<exists>!i. i < length bs \<and> in_bucket (bs ! i) (Num x)"
proof -
  from t x obtain i where i: "i < length bs" "in_bucket (bs ! i) (Num x)"
    unfolding tiles_def by blast
  have u: "\<And>j. j < length bs \<Longrightarrow> in_bucket (bs ! j) (Num x) \<Longrightarrow> j = i"
    using t i unfolding tiles_def by blast
  show "\<exists>!i. i < length bs \<and> in_bucket (bs ! i) (Num x)"
    using i u by blast
  have "sum_list (map (\<lambda>k. if in_bucket k (Num x) then c else 0) bs)
      = (if in_bucket (bs ! i) (Num x) then c else 0)"
    by (rule sum_list_single[OF i(1)]) (use u in auto)
  then show "sum_list (map (\<lambda>k. if in_bucket k (Num x) then c else 0) bs) = c"
    using i(2) by simp
qed

lemma sum_over_buckets:
  assumes t: "tiles bs a b"
    and r: "\<forall>t \<in> set ts. \<exists>x. d t = Num x \<and> a \<le> x \<and> x \<le> b"
  shows "sum_list (map (\<lambda>k. sum_list (map f (filter (\<lambda>t. in_bucket k (d t)) ts))) bs)
          = (sum_list (map f ts) :: int)"
  using r
proof (induction ts)
  case Nil
  then show ?case by simp
next
  case (Cons t ts)
  then obtain x where x: "d t = Num x" "a \<le> x" "x \<le> b" by auto
  have "sum_list (map (\<lambda>k. sum_list (map f (filter (\<lambda>t. in_bucket k (d t)) (t # ts)))) bs)
      = sum_list (map (\<lambda>k. (if in_bucket k (Num x) then f t else 0)
                        + sum_list (map f (filter (\<lambda>t. in_bucket k (d t)) ts))) bs)"
    by (rule arg_cong[where f = sum_list]) (simp add: x(1))
  also have "\<dots> = sum_list (map (\<lambda>k. if in_bucket k (Num x) then f t else 0) bs)
      + sum_list (map (\<lambda>k. sum_list (map f (filter (\<lambda>t. in_bucket k (d t)) ts))) bs)"
    by (simp add: sum_list_addf)
  also have "\<dots> = f t + sum_list (map f ts)"
    using tiles_once(1)[OF t x(2,3), of "f t"] Cons by simp
  finally show ?case by simp
qed

lemma sums_empty:
  "sum_list (map (\<lambda>k. sum_list (map f (filter (\<lambda>t. in_bucket k (d t)) []))) bs) = (0::int)"
  by (induction bs) simp_all
section \<open>Sum property and the default month window\<close>

text \<open>
  Claim C6, as stated, fails on the planner's output for a week at the start of the year 100:
  with both dates 0100-01-02 the snapped range is 1999-12-28 to 2000-01-03, the only bucket is
  1999-12-27 to 2000-01-02, and a record dated 2000-01-03, inside the range, is counted in no
  bucket.
\<close>

theorem week_bucket_misses_record:
  "buildBuckets (Num 1762102800000) (Some ''100-01-02'') (Some ''100-01-02'') ''week''
     = Some \<lparr>rangeStart = Num 946339200000, rangeEnd = Num 946943999999,
             buckets = [\<lparr>start = Num 946252800000, end_b = Num 946857599999\<rparr>]\<rparr> \<and>
   js_le (Num 946339200000) (date ex_late_trend) \<and> js_le (date ex_late_trend) (Num 946943999999) \<and>
   sum_list (map productsAdded_r
      (trendByBucket [ex_late_trend] [\<lparr>start = Num 946252800000, end_b = Num 946857599999\<rparr>])) = 0 \<and>
   sum_list (map productsAdded [ex_late_trend]) = 1"
proof -
  have "buildBuckets (Num 1762102800000) (Some ''100-01-02'') (Some ''100-01-02'') ''week''
     = Some \<lparr>rangeStart = Num 946339200000, rangeEnd = Num 946943999999,
             buckets = [\<lparr>start = Num 946252800000, end_b = Num 946857599999\<rparr>]\<rparr>"
    by code_simp
  then show ?thesis
    by (simp add: ex_late_trend_def trendByBucket_def trendRow_of_def in_bucket_def js_ge_def)
qed

text \<open>
  Claim C6, amended. For every bucket list that the planner produces from dates in effect
  (after the defaulting) that are valid instants from the year 100 on (for weeks: in ISO
  weeks that start in the year 100 or later), and for all trend records and visitor logs whose
  timestamps lie in the snapped range: the per-bucket \<open>productsAdded\<close> and \<open>productsRemoved\<close>
  sum to the totals over the records, the per-bucket visitor counts sum to the number of logs
  (\<open>totalVisitors\<close>), and every record lies in exactly one bucket.
\<close>

theorem bucket_sums_preserved:
  assumes "buildBuckets now sd ed g = Some r"
    and "effectiveStart now sd ed g = Num p" and "plain g p"
    and "effectiveEnd now ed = Num e" and "plain g e"
    and "rangeStart r = Num a" and "rangeEnd r = Num b"
    and "\<forall>t \<in> set trends. \<exists>x. date t = Num x \<and> a \<le> x \<and> x \<le> b"
    and "\<forall>l \<in> set logs. \<exists>x. visitedAt l = Num x \<and> a \<le> x \<and> x \<le> b"
  shows "sum_list (map productsAdded_r (trendByBucket trends (buckets r)))
           = sum_list (map productsAdded trends) \<and>
         sum_list (map productsRemoved_r (trendByBucket trends (buckets r)))
           = sum_list (map productsRemoved trends) \<and>
         sum_list (map visitors (map (visitorRow_of logs) (buckets r))) = int (length logs) \<and>
         (\<forall>t \<in> set trends. \<exists>!i. i < length (buckets r) \<and> in_bucket (buckets r ! i) (date t)) \<and>
         (\<forall>l \<in> set logs. \<exists>!i. i < length (buckets r) \<and> in_bucket (buckets r ! i) (visitedAt l))"
proof -
  let ?bs = "buckets r"
  have added: "map productsAdded_r (trendByBucket trends ?bs)
      = map (\<lambda>k. sum_list (map productsAdded (filter (\<lambda>t. in_bucket k (date t)) trends))) ?bs"
    by (simp add: trendByBucket_def forwardFill_keeps trendRow_of_sums items_of_def)
  have removed: "map productsRemoved_r (trendByBucket trends ?bs)
      = map (\<lambda>k. sum_list (map productsRemoved (filter (\<lambda>t. in_bucket k (date t)) trends))) ?bs"
    by (simp add: trendByBucket_def forwardFill_keeps trendRow_of_sums items_of_def)
  have counted: "map visitors (map (visitorRow_of logs) ?bs)
      = map (\<lambda>k. sum_list (map (\<lambda>l. 1) (filter (\<lambda>l. in_bucket k (visitedAt l)) logs))) ?bs"
    by (simp add: visitorRow_of_count sum_list_map_filter')
  have ones: "sum_list (map (\<lambda>l. 1) logs) = int (length logs)"
    by (induction logs) simp_all
  show ?thesis
  proof (cases "a \<le> b")
    case True
    have t: "tiles ?bs a b"
      by (rule plan_plain(5)[OF assms(1-7) True])
    have u1: "\<forall>t \<in> set trends. \<exists>!i. i < length ?bs \<and> in_bucket (?bs ! i) (date t)"
    proof
      fix x assume "x \<in> set trends"
      then obtain y where "date x = Num y" "a \<le> y" "y \<le> b" using assms(8) by blast
      then show "\<exists>!i. i < length ?bs \<and> in_bucket (?bs ! i) (date x)"
        using tiles_once(2)[OF t, of y] by simp
    qed
    have u2: "\<forall>l \<in> set logs. \<exists>!i. i < length ?bs \<and> in_bucket (?bs ! i) (visitedAt l)"
    proof
      fix x assume "x \<in> set logs"
      then obtain y where "visitedAt x = Num y" "a \<le> y" "y \<le> b" using assms(9) by blast
      then show "\<exists>!i. i < length ?bs \<and> in_bucket (?bs ! i) (visitedAt x)"
        using tiles_once(2)[OF t, of y] by simp
    qed
    show ?thesis
      unfolding added removed counted
      using sum_over_buckets[OF t assms(8), of productsAdded]
        sum_over_buckets[OF t assms(8), of productsRemoved]
        sum_over_buckets[OF t assms(9), of "\<lambda>l. 1"] ones u1 u2
      by simp
  next
    case False
    have "trends = []"
    proof (cases trends)
      case (Cons x xs)
      then show ?thesis using assms(8) False by force
    qed simp
    moreover have "logs = []"
    proof (cases logs)
      case (Cons x xs)
      then show ?thesis using assms(9) False by force
    qed simp
    ultimately show ?thesis
      unfolding added removed counted by (simp add: sums_empty)
  qed
qed

text \<open>The amended claim for the three day buckets of 2025-09-01 to 2025-09-03 and two records.\<close>

theorem bucket_sums_preserved_witness:
  "buildBuckets (Num 1762102800000) (Some ''2025-09-01'') (Some ''2025-09-03'') ''day''
     = Some \<lparr>rangeStart = Num 1756684800000, rangeEnd = Num 1756943999999, buckets = ex_buckets\<rparr> \<and>
   effectiveStart (Num 1762102800000) (Some ''2025-09-01'') (Some ''2025-09-03'') ''day''
     = Num 1756684800000 \<and> plain ''day'' 1756684800000 \<and>
   effectiveEnd (Num 1762102800000) (Some ''2025-09-03'') = Num 1756857600000 \<and>
   plain ''day'' 1756857600000 \<and>
   map date ex_trends = [Num 1756700000000, Num 1756860000000] \<and>
   (1756684800000::int) \<le> 1756700000000 \<and> (1756860000000::int) \<le> 1756943999999 \<and>
   sum_list (map productsAdded_r (trendByBucket ex_trends ex_buckets)) = 11 \<and>
   sum_list (map productsRemoved_r (trendByBucket ex_trends ex_buckets)) = 3"
proof -
  have b: "buildBuckets (Num 1762102800000) (Some ''2025-09-01'') (Some ''2025-09-03'') ''day''
     = Some \<lparr>rangeStart = Num 1756684800000, rangeEnd = Num 1756943999999, buckets = ex_buckets\<rparr>"
    unfolding ex_buckets_def by code_simp
  have s: "effectiveStart (Num 1762102800000) (Some ''2025-09-01'') (Some ''2025-09-03'') ''day''
     = Num 1756684800000" by code_simp
  have ps: "plain ''day'' 1756684800000" by code_simp
  have e: "effectiveEnd (Num 1762102800000) (Some ''2025-09-03'') = Num 1756857600000"
    by code_simp
  have pe: "plain ''day'' 1756857600000" by code_simp
  have t: "\<forall>t \<in> set ex_trends. \<exists>x. date t = Num x \<and> 1756684800000 \<le> x \<and> x \<le> 1756943999999"
    by (simp add: ex_trends_def)
  have l: "\<forall>l \<in> set ([] :: visitorLog list).
      \<exists>x. visitedAt l = Num x \<and> 1756684800000 \<le> x \<and> x \<le> 1756943999999" by simp
  have v: "sum_list (map productsAdded ex_trends) = 11" "sum_list (map productsRemoved ex_trends) = 3"
    by (simp_all add: ex_trends_def)
  note c = bucket_sums_preserved[OF b s ps e pe _ _ t l]
  have dts: "map date ex_trends = [Num 1756700000000, Num 1756860000000]"
    by (simp add: ex_trends_def)
  show ?thesis using c b s ps e pe dts v by simp
qed

text \<open>
  Claim C3 at \<open>now\<close> = 2025-07-31T00:00:00Z with \<^verbatim>\<open>startDate\<close> and \<^verbatim>\<open>endDate\<close> omitted and
  granularity month: \<^verbatim>\<open>setUTCMonth\<close> keeps the date 31, February has no day 31, so the start
  moves to 2025-03-03 and is snapped to 2025-03-01. The plan has five month buckets, March
  to July, not six.
\<close>

theorem month_default_on_july_31:
  "buildBuckets (Num 1753920000000) None None ''month''
     = Some \<lparr>rangeStart = Num 1740787200000, rangeEnd = Num 1754006399999,
             buckets = [\<lparr>start = Num 1740787200000, end_b = Num 1743465599999\<rparr>,
                        \<lparr>start = Num 1743465600000, end_b = Num 1746057599999\<rparr>,
                        \<lparr>start = Num 1746057600000, end_b = Num 1748735999999\<rparr>,
                        \<lparr>start = Num 1748736000000, end_b = Num 1751327999999\<rparr>,
                        \<lparr>start = Num 1751328000000, end_b = Num 1754006399999\<rparr>]\<rparr> \<and>
   fmt (Num 1753920000000) = ''2025-07-31'' \<and> fmt (Num 1740787200000) = ''2025-03-01''"
  by code_simp
section \<open>The default window\<close>







section \<open>The default day window and the order of the range\<close>







text \<open>
  A start date before the year 100 is moved into the twentieth century by the snapping, also
  when it is not after the end date: \<^verbatim>\<open>startDate=100-1-.5\<close> is 0099-12-31 (the day
  \<^verbatim>\<open>.5\<close> is truncated to 0, the day before 0100-01-01) and snaps to 1999-12-31.
\<close>

lemma range_reversed_from_year_99:
  "toUTCDateOnly (Some ''100-1-.5'') = Some (Num (- 59011545600000)) \<and>
   toUTCDateOnly (Some ''100-01-01'') = Some (Num (- 59011459200000)) \<and>
   buildBuckets (Num 1762102800000) (Some ''100-1-.5'') (Some ''100-01-01'') ''day''
     = Some \<lparr>rangeStart = Num 946598400000, rangeEnd = Num (- 59011372800001), buckets = []\<rparr>"
  by code_simp



end
